theory Spec2Isabelle
  imports Complex_Main "HOL-Library.Word"
begin

section \<open>Pixel buffers and JavaScript numerics\<close>

text \<open>
  An \<open>ImageData\<close> object of the browser is a width, a height and a \<open>Uint8ClampedArray\<close>
  of four bytes per pixel (R, G, B, A), row-major. The browser only ever builds such
  objects with \<open>data.length = 4 * width * height\<close>; \<open>wf_ImageData\<close> states that invariant.

  Bytes read from a typed array enter the arithmetic through \<open>num\<close>; a number is stored
  into a \<open>Uint8ClampedArray\<close> through \<open>toUint8Clamp\<close> (clamp to 0..255, round to nearest,
  ties to even), and \<open>Math.round\<close>
  rounds half up. A store at an index beyond the end of a typed array does nothing, which
  is also what \<open>xs[i := v]\<close> does. A read beyond the end yields \<open>undefined\<close>: the two
  matting loops and the copies of the alpha channel, which follow the length of the data, treat
  it explicitly; the filters address pixels through \<open>width\<close> and \<open>height\<close> and read
  inside every buffer that satisfies \<open>wf_ImageData\<close>, which the theorems about them assume.
\<close>

type_synonym byte = "8 word"

record ImageData =
  width :: nat
  height :: nat
  data :: "byte list"

definition wf_ImageData :: "ImageData \<Rightarrow> bool" where
  "wf_ImageData img \<longleftrightarrow> length (data img) = 4 * width img * height img"

definition num :: "byte \<Rightarrow> real" where
  "num b = real (unat b)"

definition Math_round :: "real \<Rightarrow> real" where
  "Math_round x = real_of_int \<lfloor>x + 1/2\<rfloor>"

definition toUint8Clamp :: "real \<Rightarrow> byte" where
  "toUint8Clamp v =
     (if v \<le> 0 then 0
      else if 255 \<le> v then 255
      else let f = \<lfloor>v\<rfloor> in
        if real_of_int f + 1/2 < v then word_of_int (f + 1)
        else if v < real_of_int f + 1/2 then word_of_int f
        else if even f then word_of_int f else word_of_int (f + 1))"

subsection \<open>Double-precision arithmetic\<close>

text \<open>
  A JavaScript number is an IEEE 754 double. A finite double is modelled by the real number
  it denotes, and an arithmetic operation by the exact result rounded to the nearest double,
  ties to the even significand: \<open>fl\<close>. A double has a significand of 53 bits and an
  exponent between -1022 and 1023, and below \<open>2 ^ -1022\<close> the doubles are the multiples of
  \<open>2 ^ -1074\<close> (gradual underflow); \<open>exponent x\<close> is the exponent of the binade of a
  positive \<open>x\<close>, found by stepping up or down from 0, and the doubles of that binade are
  the multiples of \<open>2 ^ (exponent x - 52)\<close>. A result whose magnitude reaches \<open>2 ^ 1024\<close>
  is \<open>Infinity\<close> in JavaScript; here it stays a finite number of at least that magnitude.
  The only operation below that can overflow is \<open>threshold * 2.55\<close>, and its result is only
  scaled by a factor between \<open>1 / 255\<close> and 1 and compared with a number of at most 255, which
  a number of that magnitude and \<open>Infinity\<close> decide alike. No operation below yields
  \<open>NaN\<close> except where the text says so. A decimal literal of the sources, such as \<open>2.55\<close>,
  denotes the nearest double, \<open>fl 2.55\<close>; the literals \<open>0.5\<close> and \<open>1.5\<close> and the
  integers are doubles themselves.

  The loops whose stored bytes depend on the rounding of the operations
  (\<open>subtractBackground\<close>, \<open>removeLiquidGlassOutline\<close>, \<open>gaussianMethod\<close>) are written
  with the rounded operations \<open>fadd\<close>, \<open>fsub\<close>, \<open>fmul\<close>, \<open>fdiv\<close>. The other functions
  are read with exact arithmetic. They add and subtract bytes, which is exact in doubles, and
  divide such a sum by 3, 4 or 9; the quotient is then compared with an integer, or rounded
  to a byte after integers have been added to it, and it is never so close to the integer,
  or to a half, that its rounding to a double could change the outcome. The colour-key test
  divides by the threshold, an integer from 1 to 100 in the application.
\<close>

definition pow2 :: "int \<Rightarrow> real" where
  "pow2 e = power_int 2 e"

function expoUp :: "real \<Rightarrow> int \<Rightarrow> int" where
  "expoUp x e = (if e < 1023 \<and> pow2 (e + 1) \<le> x then expoUp x (e + 1) else e)"
  by pat_completeness auto
termination
  by (relation "measure (\<lambda>(x, e). nat (1023 - e))") auto

function expoDown :: "real \<Rightarrow> int \<Rightarrow> int" where
  "expoDown x e = (if - 1022 < e \<and> x < pow2 e then expoDown x (e - 1) else e)"
  by pat_completeness auto
termination
  by (relation "measure (\<lambda>(x, e). nat (e + 1022))") auto

declare expoUp.simps [simp del] expoDown.simps [simp del]

definition exponent :: "real \<Rightarrow> int" where
  "exponent x = (if 1 \<le> x then expoUp x 0 else expoDown x 0)"

text \<open>Rounding to the nearest integer, ties to even.\<close>

definition rne :: "real \<Rightarrow> int" where
  "rne x =
     (let f = \<lfloor>x\<rfloor> in
        if x - real_of_int f < 1/2 then f
        else if 1/2 < x - real_of_int f then f + 1
        else if even f then f else f + 1)"

definition fl :: "real \<Rightarrow> real" where
  "fl x = (if x = 0 then 0
           else let u = pow2 (exponent \<bar>x\<bar> - 52) in real_of_int (rne (x / u)) * u)"

definition fadd :: "real \<Rightarrow> real \<Rightarrow> real" where
  "fadd x y = fl (x + y)"

definition fsub :: "real \<Rightarrow> real \<Rightarrow> real" where
  "fsub x y = fl (x - y)"

definition fmul :: "real \<Rightarrow> real \<Rightarrow> real" where
  "fmul x y = fl (x * y)"

definition fdiv :: "real \<Rightarrow> real \<Rightarrow> real" where
  "fdiv x y = fl (x / y)"

subsection \<open>Loops over a buffer\<close>

text \<open>The indices \<open>0, 4, 8, ...\<close> below \<open>n\<close>: the values of \<open>i\<close> in
  \<open>for (let i = 0; i < n; i += 4)\<close>.\<close>

definition stride4 :: "nat \<Rightarrow> nat list" where
  "stride4 n = map (\<lambda>k. 4 * k) [0..<(n + 3) div 4]"

text \<open>Accessors used to state properties: the four channels of the pixel with flat
  index \<open>k\<close>, and the flat index of the pixel at column \<open>x\<close>, row \<open>y\<close>.\<close>

definition pixel :: "byte list \<Rightarrow> nat \<Rightarrow> byte \<times> byte \<times> byte \<times> byte" where
  "pixel d k = (d ! (4 * k), d ! (4 * k + 1), d ! (4 * k + 2), d ! (4 * k + 3))"

definition alphaOf :: "byte list \<Rightarrow> nat \<Rightarrow> byte" where
  "alphaOf d k = d ! (4 * k + 3)"

definition pixelIndex :: "ImageData \<Rightarrow> nat \<Rightarrow> nat \<Rightarrow> nat" where
  "pixelIndex img x y = y * width img + x"

section \<open>Reference-mode matting: \<open>subtractBackground\<close>\<close>

text \<open>
  The body of the loop of \<open>subtractBackground\<close> at index \<open>i\<close>. When \<open>i + 3\<close> is beyond
  the reference buffer, \<open>bgPixels[i + 3]\<close> is \<open>undefined\<close> and \<open>undefined > 0\<close> is false;
  when \<open>i + 3\<close> is beyond the image buffer the only store of the body does nothing.
  The division by \<open>effectiveThreshold * 0.5\<close> is reached only with
  \<open>0 < effectiveThreshold\<close>.
\<close>

definition subtractPixel :: "real \<Rightarrow> byte list \<Rightarrow> nat \<Rightarrow> byte list \<Rightarrow> byte list" where
  "subtractPixel workingThreshold bgPixels i d =
     (if i + 3 < length bgPixels \<and> i + 3 < length d then
        let bgAlpha = num (bgPixels ! (i + 3)) in
        if bgAlpha > 0 then
          let bgR = num (bgPixels ! i);
              bgG = num (bgPixels ! (i + 1));
              bgB = num (bgPixels ! (i + 2));
              imgR = num (d ! i);
              imgG = num (d ! (i + 1));
              imgB = num (d ! (i + 2));
              rDiff = \<bar>fsub imgR bgR\<bar>;
              gDiff = \<bar>fsub imgG bgG\<bar>;
              bDiff = \<bar>fsub imgB bgB\<bar>;
              maxDiff = max (max rDiff gDiff) bDiff;
              alphaFactor = fdiv bgAlpha 255;
              effectiveThreshold = fmul workingThreshold alphaFactor
          in if maxDiff < effectiveThreshold then d[i + 3 := 0]
             else if maxDiff < fmul effectiveThreshold 1.5 then
               let fadeout = fdiv (fsub maxDiff effectiveThreshold) (fmul effectiveThreshold 0.5)
               in d[i + 3 := toUint8Clamp (Math_round (fmul (num (d ! (i + 3))) fadeout))]
             else d
        else d
      else d)"

definition subtractBackground :: "ImageData \<Rightarrow> ImageData \<Rightarrow> real \<Rightarrow> ImageData" where
  "subtractBackground imageData bgData threshold =
     (let workingThreshold = fmul threshold (fl 2.55)
      in imageData\<lparr>data :=
           fold (subtractPixel workingThreshold (data bgData))
                (stride4 (length (data imageData))) (data imageData)\<rparr>)"

text \<open>The quantities the specification names, for the image pixel \<open>p\<close> and the reference
  pixel \<open>q\<close>: the largest channel difference, the effective threshold and the fade factor,
  the last two with the operations of the source, each rounded to a double.\<close>

definition maxDiffOf :: "byte \<times> byte \<times> byte \<times> byte \<Rightarrow> byte \<times> byte \<times> byte \<times> byte \<Rightarrow> real" where
  "maxDiffOf p q =
     (case (p, q) of ((r, g, b, a), (r', g', b', a')) \<Rightarrow>
        max (max \<bar>num r - num r'\<bar> \<bar>num g - num g'\<bar>) \<bar>num b - num b'\<bar>)"

definition effectiveThresholdOf :: "real \<Rightarrow> byte \<Rightarrow> real" where
  "effectiveThresholdOf threshold refAlpha = fmul (fmul threshold (fl 2.55)) (fdiv (num refAlpha) 255)"

definition fadeoutOf :: "real \<Rightarrow> real \<Rightarrow> real" where
  "fadeoutOf maxDiff effectiveThreshold =
     fdiv (fsub maxDiff effectiveThreshold) (fmul effectiveThreshold 0.5)"

text \<open>The alpha that one loop body stores, as a function of the two pixels.\<close>

definition matteAlpha ::
  "real \<Rightarrow> byte \<times> byte \<times> byte \<times> byte \<Rightarrow> byte \<times> byte \<times> byte \<times> byte \<Rightarrow> byte" where
  "matteAlpha threshold p q =
     (case (p, q) of ((r, g, b, a), (r', g', b', a')) \<Rightarrow>
        if num a' > 0 then
          if maxDiffOf p q < effectiveThresholdOf threshold a' then 0
          else if maxDiffOf p q < fmul (effectiveThresholdOf threshold a') 1.5 then
            toUint8Clamp (Math_round (fmul (num a)
              (fadeoutOf (maxDiffOf p q) (effectiveThresholdOf threshold a'))))
          else a
        else a)"

text \<open>The alpha stored by the loop body at index \<open>i\<close>, from the four bytes of the image
  pixel there.\<close>

definition subtractAlpha :: "real \<Rightarrow> byte list \<Rightarrow> nat \<Rightarrow> byte \<Rightarrow> byte \<Rightarrow> byte \<Rightarrow> byte \<Rightarrow> byte" where
  "subtractAlpha t bg i r g b a =
     (if i + 3 < length bg
      then matteAlpha t (r, g, b, a) (bg ! i, bg ! (i + 1), bg ! (i + 2), bg ! (i + 3))
      else a)"

text \<open>The number of pixels of a buffer whose alpha is 0.\<close>

definition transparentCount :: "byte list \<Rightarrow> nat" where
  "transparentCount d = length (filter (\<lambda>k. alphaOf d k = 0) [0..<length d div 4])"

text \<open>A pixel with its alpha replaced.\<close>

definition withAlpha :: "byte \<times> byte \<times> byte \<times> byte \<Rightarrow> byte \<Rightarrow> byte \<times> byte \<times> byte \<times> byte" where
  "withAlpha p a' = (case p of (r, g, b, a) \<Rightarrow> (r, g, b, a'))"

section \<open>Colour-key matting: \<open>removeByColor\<close>\<close>

text \<open>The object \<open>{ r, g, b }\<close> that \<open>hexToRgb\<close> and \<open>detectBackgroundColor\<close> return.\<close>

record RGB =
  rgb_r :: real
  rgb_g :: real
  rgb_b :: real

text \<open>
  The body of the loop of \<open>removeByColor\<close> at index \<open>i\<close>. With \<open>threshold = 0\<close> the
  quotient \<open>totalDiff / threshold\<close> is \<open>NaN\<close> when \<open>totalDiff = 0\<close> (both \<open>Math.min\<close> then
  yield \<open>NaN\<close>, which a \<open>Uint8ClampedArray\<close> stores as 0) and \<open>Infinity\<close> otherwise
  (\<open>Math.min(255, Infinity)\<close> is 255); these two cases are written out.
\<close>

definition removeByColorPixel :: "RGB \<Rightarrow> real \<Rightarrow> nat \<Rightarrow> byte list \<Rightarrow> byte list" where
  "removeByColorPixel targetColor threshold i d =
     (if i + 3 < length d then
        let r = num (d ! i);
            g = num (d ! (i + 1));
            b = num (d ! (i + 2));
            rDiff = \<bar>r - rgb_r targetColor\<bar>;
            gDiff = \<bar>g - rgb_g targetColor\<bar>;
            bDiff = \<bar>b - rgb_b targetColor\<bar>;
            totalDiff = (rDiff + gDiff + bDiff) / 3
        in if totalDiff < threshold then d[i + 3 := 0]
           else if threshold = 0 then
             (if totalDiff = 0 then d[i + 3 := 0]
              else d[i + 3 := toUint8Clamp (min (num (d ! (i + 3))) 255)])
           else
             let alpha = min 255 ((totalDiff / threshold) * 255)
             in d[i + 3 := toUint8Clamp (min (num (d ! (i + 3))) alpha)]
      else d)"

definition removeByColor :: "ImageData \<Rightarrow> RGB \<Rightarrow> real \<Rightarrow> ImageData" where
  "removeByColor imageData targetColor threshold =
     imageData\<lparr>data :=
       fold (removeByColorPixel targetColor threshold)
            (stride4 (length (data imageData))) (data imageData)\<rparr>"

text \<open>The mean absolute channel difference of a pixel from the target colour.\<close>

definition totalDiffOf :: "byte \<times> byte \<times> byte \<times> byte \<Rightarrow> RGB \<Rightarrow> real" where
  "totalDiffOf p targetColor =
     (case p of (r, g, b, a) \<Rightarrow>
        (\<bar>num r - rgb_r targetColor\<bar> + \<bar>num g - rgb_g targetColor\<bar> +
         \<bar>num b - rgb_b targetColor\<bar>) / 3)"

text \<open>The alpha stored by the loop body of \<open>removeByColor\<close> when \<open>threshold > 0\<close>, from the
  four bytes of the pixel.\<close>

definition colorKeyAlpha :: "RGB \<Rightarrow> real \<Rightarrow> nat \<Rightarrow> byte \<Rightarrow> byte \<Rightarrow> byte \<Rightarrow> byte \<Rightarrow> byte" where
  "colorKeyAlpha targetColor threshold i r g b a =
     (if totalDiffOf (r, g, b, a) targetColor < threshold then 0 else a)"

section \<open>Edge-refinement filters\<close>

text \<open>
  The filters loop over pixel coordinates, \<open>y\<close> outermost. \<open>interiorCoords\<close> are the pairs
  \<open>(y, x)\<close> of \<open>for (y = 1; y < height - 1; y++) for (x = 1; x < width - 1; x++)\<close>, and
  \<open>allCoords\<close> those of the loops from 0 to \<open>height\<close> and \<open>width\<close>. The eight neighbour
  offsets \<open>(dy, dx)\<close> are listed in the order the two inner loops visit them; the early
  \<open>break\<close> of the sources only stops a search that has already succeeded.
\<close>

definition interiorCoords :: "nat \<Rightarrow> nat \<Rightarrow> (nat \<times> nat) list" where
  "interiorCoords w h = List.product [1..<h - 1] [1..<w - 1]"

definition allCoords :: "nat \<Rightarrow> nat \<Rightarrow> (nat \<times> nat) list" where
  "allCoords w h = List.product [0..<h] [0..<w]"

definition neighbours8 :: "(int \<times> int) list" where
  "neighbours8 = [(-1, -1), (-1, 0), (-1, 1), (0, -1), (0, 1), (1, -1), (1, 0), (1, 1)]"

definition window9 :: "(int \<times> int) list" where
  "window9 = [(-1, -1), (-1, 0), (-1, 1), (0, -1), (0, 0), (0, 1), (1, -1), (1, 0), (1, 1)]"

text \<open>The index \<open>(y + dy) * width + (x + dx)\<close>.\<close>

definition neighbourIdx :: "nat \<Rightarrow> nat \<Rightarrow> nat \<Rightarrow> int \<times> int \<Rightarrow> nat" where
  "neighbourIdx w y x off = (case off of (dy, dx) \<Rightarrow> nat (int y + dy) * w + nat (int x + dx))"

text \<open>The test \<open>ny >= 0 && ny < height && nx >= 0 && nx < width\<close>.\<close>

definition inBounds :: "nat \<Rightarrow> nat \<Rightarrow> nat \<Rightarrow> nat \<Rightarrow> int \<times> int \<Rightarrow> bool" where
  "inBounds w h y x off =
     (case off of (dy, dx) \<Rightarrow>
        0 \<le> int y + dy \<and> int y + dy < int h \<and> 0 \<le> int x + dx \<and> int x + dx < int w)"

subsection \<open>\<open>smoothEdges\<close>\<close>

definition smoothPixel :: "byte list \<Rightarrow> nat \<Rightarrow> nat \<times> nat \<Rightarrow> byte list \<Rightarrow> byte list" where
  "smoothPixel originalData w yx d =
     (case yx of (y, x) \<Rightarrow>
        let idx = (y * w + x) * 4 in
        if num (originalData ! (idx + 3)) > 0 \<and> num (originalData ! (idx + 3)) < 255 then
          let alphaSum = sum_list (map (\<lambda>off. num (originalData ! (neighbourIdx w y x off * 4 + 3))) window9);
              count = real (length window9)
          in d[idx + 3 := toUint8Clamp (Math_round (alphaSum / count))]
        else d)"

definition smoothEdges :: "ImageData \<Rightarrow> ImageData" where
  "smoothEdges imageData =
     (let w = width imageData; h = height imageData; originalData = data imageData
      in imageData\<lparr>data := fold (smoothPixel originalData w) (interiorCoords w h) (data imageData)\<rparr>)"

subsection \<open>Outer-edge detection\<close>

text \<open>
  \<open>removeLightEdgeArtifacts\<close> and \<open>removeLiquidGlassOutline\<close> start with the same loop, which
  fills the mask \<open>isOuterEdge\<close> (a \<open>Uint8Array\<close> of \<open>width * height\<close> zeros): a non-border
  pixel with alpha above 0 and a neighbour of alpha 0 is marked 1.
\<close>

definition hasTransparent :: "byte list \<Rightarrow> nat \<Rightarrow> nat \<Rightarrow> nat \<Rightarrow> bool" where
  "hasTransparent d w y x = list_ex (\<lambda>off. d ! (neighbourIdx w y x off * 4 + 3) = 0) neighbours8"

definition markOuterEdge :: "byte list \<Rightarrow> nat \<Rightarrow> nat \<times> nat \<Rightarrow> byte list \<Rightarrow> byte list" where
  "markOuterEdge d w yx isOuterEdge =
     (case yx of (y, x) \<Rightarrow>
        let idx = y * w + x; pixelIdx = idx * 4 in
        if num (d ! (pixelIdx + 3)) > 0 then
          if hasTransparent d w y x then isOuterEdge[idx := 1] else isOuterEdge
        else isOuterEdge)"

definition findOuterEdge :: "byte list \<Rightarrow> nat \<Rightarrow> nat \<Rightarrow> byte list" where
  "findOuterEdge d w h = fold (markOuterEdge d w) (interiorCoords w h) (replicate (w * h) 0)"

subsection \<open>\<open>removeLightEdgeArtifacts\<close>\<close>

definition lightEdgePixel :: "byte list \<Rightarrow> nat \<Rightarrow> nat \<times> nat \<Rightarrow> byte list \<Rightarrow> byte list" where
  "lightEdgePixel isOuterEdge w yx d =
     (case yx of (y, x) \<Rightarrow>
        let idx = y * w + x in
        if isOuterEdge ! idx \<noteq> 1 then d
        else
          let pixelIdx = idx * 4; alpha = num (d ! (pixelIdx + 3)) in
          if alpha > 0 \<and> alpha < 200 then
            let r = num (d ! pixelIdx);
                g = num (d ! (pixelIdx + 1));
                b = num (d ! (pixelIdx + 2));
                brightness = (r + g + b) / 3
            in if brightness > 180
               then d[pixelIdx + 3 := toUint8Clamp (max 0 (alpha - (brightness - 128)))]
               else d
          else d)"

definition removeLightEdgeArtifacts :: "ImageData \<Rightarrow> ImageData" where
  "removeLightEdgeArtifacts imageData =
     (let w = width imageData; h = height imageData;
          isOuterEdge = findOuterEdge (data imageData) w h
      in imageData\<lparr>data := fold (lightEdgePixel isOuterEdge w) (allCoords w h) (data imageData)\<rparr>)"

subsection \<open>\<open>erodeEdges\<close>\<close>

text \<open>
  \<open>alphaMap\<close> is a \<open>Uint8ClampedArray\<close> of \<open>width * height\<close> zeros filled from the alpha
  channel; a read of \<open>data\<close> beyond its end is \<open>undefined\<close> and is stored as 0. Each pass
  copies \<open>alphaMap\<close> to \<open>tempAlpha\<close>, tests \<open>tempAlpha\<close> and writes \<open>alphaMap\<close>. At the end
  the alpha channel is written back; a read of \<open>alphaMap\<close> beyond its end is stored as 0.
\<close>

definition copyAlpha :: "byte list \<Rightarrow> nat \<Rightarrow> byte list \<Rightarrow> byte list" where
  "copyAlpha d i alphaMap = alphaMap[i div 4 := (if i + 3 < length d then d ! (i + 3) else 0)]"

definition erodeHasTransparent :: "byte list \<Rightarrow> nat \<Rightarrow> nat \<Rightarrow> nat \<Rightarrow> bool" where
  "erodeHasTransparent tempAlpha w y x =
     list_ex (\<lambda>off. tempAlpha ! neighbourIdx w y x off = 0) neighbours8"

definition erodePixel :: "byte list \<Rightarrow> nat \<Rightarrow> nat \<times> nat \<Rightarrow> byte list \<Rightarrow> byte list" where
  "erodePixel tempAlpha w yx alphaMap =
     (case yx of (y, x) \<Rightarrow>
        let idx = y * w + x in
        if num (tempAlpha ! idx) > 0 then
          if erodeHasTransparent tempAlpha w y x then alphaMap[idx := 0] else alphaMap
        else alphaMap)"

definition erodePass :: "nat \<Rightarrow> nat \<Rightarrow> byte list \<Rightarrow> byte list" where
  "erodePass w h alphaMap =
     (let tempAlpha = alphaMap in fold (erodePixel tempAlpha w) (interiorCoords w h) alphaMap)"

definition writeAlpha :: "byte list \<Rightarrow> nat \<Rightarrow> byte list \<Rightarrow> byte list" where
  "writeAlpha alphaMap i d =
     d[i + 3 := (if i div 4 < length alphaMap then alphaMap ! (i div 4) else 0)]"

definition erodeEdges :: "ImageData \<Rightarrow> nat \<Rightarrow> ImageData" where
  "erodeEdges imageData pixels =
     (let d = data imageData; w = width imageData; h = height imageData;
          alphaMap0 = fold (copyAlpha d) (stride4 (length d)) (replicate (w * h) 0);
          alphaMap = (erodePass w h ^^ pixels) alphaMap0
      in imageData\<lparr>data := fold (writeAlpha alphaMap) (stride4 (length d)) d\<rparr>)"

subsection \<open>\<open>aggressiveEdgeCleanup\<close>\<close>

text \<open>This filter reads the neighbours' alpha from the buffer it is writing.\<close>

definition opaqueNeighbours :: "byte list \<Rightarrow> nat \<Rightarrow> nat \<Rightarrow> nat \<Rightarrow> nat \<Rightarrow> (int \<times> int) list" where
  "opaqueNeighbours d w h y x =
     filter (\<lambda>off. inBounds w h y x off \<and> num (d ! (neighbourIdx w y x off * 4 + 3)) > 200)
       neighbours8"

definition cleanupPixel :: "nat \<Rightarrow> nat \<Rightarrow> nat \<times> nat \<Rightarrow> byte list \<Rightarrow> byte list" where
  "cleanupPixel w h yx d =
     (case yx of (y, x) \<Rightarrow>
        let idx = (y * w + x) * 4; alpha = num (d ! (idx + 3)) in
        if alpha > 0 \<and> alpha < 128 then
          let r = num (d ! idx);
              g = num (d ! (idx + 1));
              b = num (d ! (idx + 2));
              hasOpaque = (opaqueNeighbours d w h y x \<noteq> []);
              opaqueCount = length (opaqueNeighbours d w h y x);
              brightness = (r + g + b) / 3
          in if (\<not> hasOpaque \<or> opaqueCount < 3) \<and> brightness > 150 then d[idx + 3 := 0] else d
        else d)"

definition aggressiveEdgeCleanup :: "ImageData \<Rightarrow> ImageData" where
  "aggressiveEdgeCleanup imageData =
     (let w = width imageData; h = height imageData
      in imageData\<lparr>data := fold (cleanupPixel w h) (allCoords w h) (data imageData)\<rparr>)"

subsection \<open>\<open>removeLiquidGlassOutline\<close>\<close>

text \<open>
  Step 2 marks in \<open>processZone\<close> every pixel that has an outer-edge pixel within
  \<open>outlineWidth\<close> rows and columns; step 3 rewrites the alpha of the marked pixels. The second
  store of step 3 tests the alpha \<open>a\<close> read at the start of the iteration. The arithmetic of
  step 3 is rounded to doubles; the division by \<open>255 - brightThreshold\<close> is reached only with
  \<open>brightThreshold\<close> below the brightness, which is at most 255.
\<close>

definition inProcessZone :: "byte list \<Rightarrow> nat \<Rightarrow> nat \<Rightarrow> int \<Rightarrow> nat \<Rightarrow> nat \<Rightarrow> bool" where
  "inProcessZone isOuterEdge w h outlineWidth y x =
     list_ex (\<lambda>off. inBounds w h y x off \<and> isOuterEdge ! neighbourIdx w y x off = 1)
       (List.product [- outlineWidth..outlineWidth] [- outlineWidth..outlineWidth])"

definition markProcessZone ::
  "byte list \<Rightarrow> nat \<Rightarrow> nat \<Rightarrow> int \<Rightarrow> nat \<times> nat \<Rightarrow> byte list \<Rightarrow> byte list" where
  "markProcessZone isOuterEdge w h outlineWidth yx processZone =
     (case yx of (y, x) \<Rightarrow>
        if inProcessZone isOuterEdge w h outlineWidth y x
        then processZone[y * w + x := 1] else processZone)"

definition glassPixel :: "byte list \<Rightarrow> nat \<Rightarrow> real \<Rightarrow> nat \<times> nat \<Rightarrow> byte list \<Rightarrow> byte list" where
  "glassPixel processZone w brightThreshold yx d =
     (case yx of (y, x) \<Rightarrow>
        let idx = y * w + x in
        if processZone ! idx \<noteq> 1 then d
        else
          let pixelIdx = idx * 4;
              r = num (d ! pixelIdx);
              g = num (d ! (pixelIdx + 1));
              b = num (d ! (pixelIdx + 2));
              a = num (d ! (pixelIdx + 3))
          in if a = 0 then d
             else
               let brightness = fdiv (fadd (fadd r g) b) 3;
                   d1 = (if brightness > brightThreshold then
                           let brightFactor = fdiv (fsub brightness brightThreshold)
                                                   (fsub 255 brightThreshold);
                               alphaReduction = fmul brightFactor a
                           in d[pixelIdx + 3 := toUint8Clamp (max 0 (fsub a alphaReduction))]
                         else d)
               in if a > 0 \<and> a < 180 \<and> brightness > fsub brightThreshold 20
                  then d1[pixelIdx + 3 :=
                            toUint8Clamp (max 0 (real_of_int \<lfloor>fmul a (fl 0.3)\<rfloor>))]
                  else d1)"

definition removeLiquidGlassOutline :: "ImageData \<Rightarrow> int \<Rightarrow> real \<Rightarrow> ImageData" where
  "removeLiquidGlassOutline imageData outlineWidth brightThreshold =
     (let w = width imageData; h = height imageData;
          isOuterEdge = findOuterEdge (data imageData) w h;
          processZone = fold (markProcessZone isOuterEdge w h outlineWidth) (allCoords w h)
                          (replicate (w * h) 0)
      in imageData\<lparr>data := fold (glassPixel processZone w brightThreshold) (allCoords w h)
                                (data imageData)\<rparr>)"

subsection \<open>Auxiliary functions for the filters\<close>

text \<open>The value one step of an erosion pass leaves in its slot of \<open>alphaMap\<close>, and the
  alpha channel of a buffer as a list of \<open>n\<close> bytes.\<close>

definition erodeValue :: "byte list \<Rightarrow> nat \<Rightarrow> nat \<times> nat \<Rightarrow> byte \<Rightarrow> byte" where
  "erodeValue tempAlpha w yx old =
     (case yx of (y, x) \<Rightarrow>
        if num (tempAlpha ! (y * w + x)) > 0 \<and> erodeHasTransparent tempAlpha w y x then 0 else old)"

definition alphaMapOf :: "byte list \<Rightarrow> nat \<Rightarrow> byte list" where
  "alphaMapOf d n = map (\<lambda>k. if 4 * k + 3 < length d then d ! (4 * k + 3) else 0) [0..<n]"

text \<open>The value one step of the outer-edge detection leaves in its slot of the mask.\<close>

definition outerEdgeValue :: "byte list \<Rightarrow> nat \<Rightarrow> nat \<times> nat \<Rightarrow> byte \<Rightarrow> byte" where
  "outerEdgeValue d w yx old =
     (case yx of (y, x) \<Rightarrow>
        if num (d ! ((y * w + x) * 4 + 3)) > 0 \<and> hasTransparent d w y x then 1 else old)"

section \<open>The family of edge-refinement filters\<close>

text \<open>The five filters with their parameters, to state properties of all of them.\<close>

datatype Filter =
    EdgeSmoothing
  | RemoveLightEdges
  | ErodePixels nat
  | EdgeCleanup
  | RemoveLiquidGlass int real

fun applyFilter :: "Filter \<Rightarrow> ImageData \<Rightarrow> ImageData" where
  "applyFilter EdgeSmoothing img = smoothEdges img"
| "applyFilter RemoveLightEdges img = removeLightEdgeArtifacts img"
| "applyFilter (ErodePixels n) img = erodeEdges img n"
| "applyFilter EdgeCleanup img = aggressiveEdgeCleanup img"
| "applyFilter (RemoveLiquidGlass outlineWidth brightThreshold) img =
     removeLiquidGlassOutline img outlineWidth brightThreshold"

text \<open>All of the 8 immediate neighbours of the pixel at \<open>(x, y)\<close> that lie in the buffer have
  nonzero alpha.\<close>

definition neighboursNonzero :: "ImageData \<Rightarrow> nat \<Rightarrow> nat \<Rightarrow> bool" where
  "neighboursNonzero img x y =
     list_all (\<lambda>off. inBounds (width img) (height img) y x off \<longrightarrow>
                 alphaOf (data img) (neighbourIdx (width img) y x off) \<noteq> 0) neighbours8"

text \<open>What every filter preserves of the buffer \<open>d0\<close> it starts from: the length, every byte
  that is not an alpha, and every alpha that is 0.\<close>

definition frame :: "byte list \<Rightarrow> byte list \<Rightarrow> bool" where
  "frame d0 d \<longleftrightarrow>
     length d = length d0 \<and> (\<forall>j < length d0. (j mod 4 \<noteq> 3 \<or> d0 ! j = 0) \<longrightarrow> d ! j = d0 ! j)"

section \<open>The orchestrator: \<open>removeBackground\<close>\<close>

subsection \<open>\<open>hexToRgb\<close> and \<open>detectBackgroundColor\<close>\<close>

text \<open>
  \<open>hexToRgb\<close> matches \<open>/^#?([a-f\d]{2})([a-f\d]{2})([a-f\d]{2})$/i\<close>: an optional \<open>#\<close> and
  exactly six hexadecimal digits of either case; any other string yields black.
\<close>

definition hexDigit :: "char \<Rightarrow> nat option" where
  "hexDigit c =
     (let n = (of_char c :: nat) in
      if 48 \<le> n \<and> n \<le> 57 then Some (n - 48)
      else if 97 \<le> n \<and> n \<le> 102 then Some (n - 87)
      else if 65 \<le> n \<and> n \<le> 70 then Some (n - 55)
      else None)"

definition hexToRgb :: "string \<Rightarrow> RGB" where
  "hexToRgb hex =
     (let digits = (case hex of [] \<Rightarrow> [] | c # rest \<Rightarrow> if c = CHR ''#'' then rest else hex)
      in case map hexDigit digits of
           [Some a, Some b, Some c, Some d, Some e, Some f] \<Rightarrow>
             \<lparr>rgb_r = real (16 * a + b), rgb_g = real (16 * c + d), rgb_b = real (16 * e + f)\<rparr>
         | _ \<Rightarrow> \<lparr>rgb_r = 0, rgb_g = 0, rgb_b = 0\<rparr>)"

text \<open>
  \<open>detectBackgroundColor\<close> averages the four corner pixels. In a buffer with at least one
  pixel the four samples are in range. A buffer without pixels has no data to sample (the
  source then computes \<open>NaN\<close>), and \<open>removeByColor\<close> has no pixel to visit, so the colour
  returned for it plays no role.
\<close>

definition detectBackgroundColor :: "ImageData \<Rightarrow> RGB" where
  "detectBackgroundColor imageData =
     (let d = data imageData; w = width imageData; h = height imageData;
          samples = [0, (w - 1) * 4, (h - 1) * w * 4, ((h - 1) * w + (w - 1)) * 4];
          r = sum_list (map (\<lambda>idx. num (d ! idx)) samples);
          g = sum_list (map (\<lambda>idx. num (d ! (idx + 1))) samples);
          b = sum_list (map (\<lambda>idx. num (d ! (idx + 2))) samples)
      in \<lparr>rgb_r = Math_round (r / real (length samples)),
          rgb_g = Math_round (g / real (length samples)),
          rgb_b = Math_round (b / real (length samples))\<rparr>)"

subsection \<open>Options\<close>

text \<open>Every field of \<open>ProcessingOptions\<close> is optional; \<open>None\<close> is an absent field.\<close>

record ProcessingOptions =
  threshold :: "real option"
  edgeSmoothing :: "bool option"
  targetBackgroundColor :: "string option"
  edgeCleanup :: "bool option"
  erodePixels :: "int option"
  removeLightEdges :: "bool option"
  removeLiquidGlass :: "bool option"
  glassOutlineWidth :: "int option"
  glassBrightness :: "real option"

text \<open>A destructuring default \<open>{ field = dflt } = options\<close>.\<close>

definition orDefault :: "'a option \<Rightarrow> 'a \<Rightarrow> 'a" where
  "orDefault v dflt = (case v of None \<Rightarrow> dflt | Some x \<Rightarrow> x)"

subsection \<open>The pixel pipeline\<close>

text \<open>
  What \<open>removeBackground\<close> does between \<open>getImageData\<close> and \<open>putImageData\<close>: \<open>bgData\<close> is
  the decoded reference when one was supplied. An empty string as \<open>targetBackgroundColor\<close>
  is falsy, like an absent one.
\<close>

definition processPixels :: "ImageData \<Rightarrow> ImageData option \<Rightarrow> ProcessingOptions \<Rightarrow> ImageData" where
  "processPixels imageData0 bgData options =
     (let thr = orDefault (threshold options) 30;
          smoothing = orDefault (edgeSmoothing options) True;
          cleanup = orDefault (edgeCleanup options) False;
          erode = orDefault (erodePixels options) 0;
          lightEdges = orDefault (removeLightEdges options) False;
          liquidGlass = orDefault (removeLiquidGlass options) False;
          outlineWidth = orDefault (glassOutlineWidth options) 2;
          brightness = orDefault (glassBrightness options) 200;
          imageData1 =
            (case bgData of
               Some bg \<Rightarrow> subtractBackground imageData0 bg thr
             | None \<Rightarrow>
                 (case targetBackgroundColor options of
                    Some c \<Rightarrow>
                      if c \<noteq> [] then removeByColor imageData0 (hexToRgb c) thr
                      else removeByColor imageData0 (detectBackgroundColor imageData0) thr
                  | None \<Rightarrow> removeByColor imageData0 (detectBackgroundColor imageData0) thr));
          imageData2 = (if smoothing then smoothEdges imageData1 else imageData1);
          imageData3 = (if lightEdges then removeLightEdgeArtifacts imageData2 else imageData2);
          imageData4 = (if erode > 0 then erodeEdges imageData3 (nat erode) else imageData3);
          imageData5 = (if cleanup then aggressiveEdgeCleanup imageData4 else imageData4);
          imageData6 = (if liquidGlass
                        then removeLiquidGlassOutline imageData5 outlineWidth brightness
                        else imageData5)
      in imageData6)"

subsection \<open>The pipeline in the words of the specification\<close>

text \<open>
  Matting: reference mode when a reference is supplied, otherwise colour key on the explicit
  target colour, otherwise colour key on the average of the corners. Then the refinement
  steps in their fixed order, each with the condition under which it is active.
\<close>

definition matte :: "ImageData \<Rightarrow> ImageData option \<Rightarrow> ProcessingOptions \<Rightarrow> ImageData" where
  "matte img reference options =
     (let thr = orDefault (threshold options) 30 in
      if reference \<noteq> None then subtractBackground img (the reference) thr
      else if targetBackgroundColor options \<noteq> None \<and> targetBackgroundColor options \<noteq> Some []
      then removeByColor img (hexToRgb (the (targetBackgroundColor options))) thr
      else removeByColor img (detectBackgroundColor img) thr)"

definition refinementSteps :: "ProcessingOptions \<Rightarrow> (bool \<times> Filter) list" where
  "refinementSteps options =
     [(orDefault (edgeSmoothing options) True, EdgeSmoothing),
      (orDefault (removeLightEdges options) False, RemoveLightEdges),
      (orDefault (erodePixels options) 0 > 0, ErodePixels (nat (orDefault (erodePixels options) 0))),
      (orDefault (edgeCleanup options) False, EdgeCleanup),
      (orDefault (removeLiquidGlass options) False,
         RemoveLiquidGlass (orDefault (glassOutlineWidth options) 2)
                           (orDefault (glassBrightness options) 200))]"

definition runSteps :: "(bool \<times> Filter) list \<Rightarrow> ImageData \<Rightarrow> ImageData" where
  "runSteps steps img = fold (\<lambda>(active, f) cur. if active then applyFilter f cur else cur) steps img"

subsection \<open>Files, the browser and promises\<close>

text \<open>
  The browser is the collaborator of \<open>removeBackground\<close>: \<open>decode\<close> stands for loading a file
  into an image and reading its pixels (\<open>None\<close> when the image fails to load, which rejects the
  promise of \<open>loadImage\<close> with an event that is not an \<open>Error\<close>); \<open>context2d\<close> and
  \<open>bgContext2d\<close> tell whether \<open>getContext('2d')\<close> yields a context for the image canvas and
  for the reference canvas; \<open>encodePng\<close> is \<open>canvas.toBlob\<close>, which hands \<open>null\<close> to its
  callback when no image can be created; \<open>readAsDataURL\<close> is the \<open>FileReader\<close> of
  \<open>createPreview\<close>.

  A promise is resolved, rejected, or never settled. The callback of \<open>toBlob\<close> runs after the
  executor of the promise has returned: its \<open>throw new Error('Failed to create blob')\<close> is
  an uncaught exception of the callback, and neither resolves nor rejects the promise.
\<close>

datatype File = File string

datatype Blob = PngOf ImageData

datatype Thrown = JsError string | NonError

datatype 'a Promise = Resolved 'a | Rejected Thrown | Unsettled

record Browser =
  decode :: "File \<Rightarrow> ImageData option"
  context2d :: bool
  bgContext2d :: bool
  encodePng :: "ImageData \<Rightarrow> Blob option"
  readAsDataURL :: "Blob \<Rightarrow> string"

definition toBlobPromise :: "Browser \<Rightarrow> ImageData \<Rightarrow> Blob Promise" where
  "toBlobPromise browser imageData =
     (case encodePng browser imageData of Some blob \<Rightarrow> Resolved blob | None \<Rightarrow> Unsettled)"

definition removeBackground ::
  "Browser \<Rightarrow> File \<Rightarrow> File option \<Rightarrow> ProcessingOptions \<Rightarrow> Blob Promise" where
  "removeBackground browser imageFile referenceBackground options =
     (case decode browser imageFile of
        None \<Rightarrow> Rejected NonError
      | Some imageData \<Rightarrow>
          if \<not> context2d browser then Rejected (JsError ''Canvas context not available'')
          else
            (case referenceBackground of
               Some bgFile \<Rightarrow>
                 (case decode browser bgFile of
                    None \<Rightarrow> Rejected NonError
                  | Some bgData \<Rightarrow>
                      if \<not> bgContext2d browser
                      then Rejected (JsError ''Background canvas context not available'')
                      else toBlobPromise browser (processPixels imageData (Some bgData) options))
             | None \<Rightarrow> toBlobPromise browser (processPixels imageData None options)))"

definition createPreview :: "Browser \<Rightarrow> Blob \<Rightarrow> string" where
  "createPreview browser blob = readAsDataURL browser blob"

section \<open>Batch processing\<close>

text \<open>
  The component \<open>BatchProcessor\<close> keeps the list \<open>files\<close> and the settings as state.
  \<open>processFile\<close> and \<open>startBatchProcessing\<close> return the state they leave; a run that awaits
  a promise that never settles does not return, and \<open>Hangs\<close> carries the state it leaves
  behind.
\<close>

datatype Status = Pending | Processing | Done | Error

record ProcessedFile =
  original :: File
  processed :: "Blob option"
  preview :: "string option"
  status :: Status
  error :: "string option"

record Settings =
  useColorMode :: bool
  referenceFile :: "File option"
  backgroundColor :: string
  sliders :: ProcessingOptions

datatype 'a Run = Returned 'a | Hangs 'a

definition processFile ::
  "Browser \<Rightarrow> Settings \<Rightarrow> ProcessedFile \<Rightarrow> nat \<Rightarrow> ProcessedFile list \<Rightarrow> ProcessedFile list Run" where
  "processFile browser settings file index files0 =
     (let files1 = files0[index := (files0 ! index)\<lparr>status := Processing\<rparr>];
          reference = (if useColorMode settings then None else referenceFile settings);
          options = (sliders settings)\<lparr>targetBackgroundColor :=
                       (if useColorMode settings then Some (backgroundColor settings) else None)\<rparr>
      in case removeBackground browser (original file) reference options of
           Resolved blob \<Rightarrow>
             Returned (files1[index := (files1 ! index)
                \<lparr>processed := Some blob, preview := Some (createPreview browser blob), status := Done\<rparr>])
         | Rejected thrown \<Rightarrow>
             Returned (files1[index := (files1 ! index)
                \<lparr>status := Error,
                 error := Some (case thrown of JsError message \<Rightarrow> message
                                | NonError \<Rightarrow> ''Unknown error'')\<rparr>])
         | Unsettled \<Rightarrow> Hangs files1)"

text \<open>The loop of \<open>startBatchProcessing\<close> reads \<open>files[i]\<close> from the list captured when the
  batch was started, and \<open>processFile\<close> updates the state.\<close>

fun batchLoop ::
  "Browser \<Rightarrow> Settings \<Rightarrow> ProcessedFile list \<Rightarrow> nat list \<Rightarrow> ProcessedFile list \<Rightarrow> ProcessedFile list Run" where
  "batchLoop browser settings files [] cur = Returned cur"
| "batchLoop browser settings files (i # rest) cur =
     (if status (files ! i) = Pending \<or> status (files ! i) = Error then
        (case processFile browser settings (files ! i) i cur of
           Returned cur' \<Rightarrow> batchLoop browser settings files rest cur'
         | Hangs cur' \<Rightarrow> Hangs cur')
      else batchLoop browser settings files rest cur)"

definition startBatchProcessing ::
  "Browser \<Rightarrow> Settings \<Rightarrow> ProcessedFile list \<Rightarrow> ProcessedFile list Run" where
  "startBatchProcessing browser settings files =
     batchLoop browser settings files [0..<length files] files"

section \<open>Gaussian alpha blur: \<open>gaussianMethod\<close>\<close>

text \<open>
  \<open>generateGaussianKernel\<close> fills an array of \<open>size * size\<close> entries, \<open>size = 2 * radius + 1\<close>,
  at the index \<open>(y + radius) * size + (x + radius)\<close> for \<open>y\<close> and \<open>x\<close> from \<open>-radius\<close> to
  \<open>radius\<close>, \<open>y\<close> outermost, which is the order of the list \<open>kernelOffsets\<close>, adding every
  value to \<open>sum\<close> in that order; then it divides every entry by \<open>sum\<close>. All of this is
  double-precision arithmetic. \<open>Math.exp\<close> is a function of the JavaScript engine, which
  ECMAScript fixes at 0, where it is 1, and otherwise only requires to approximate the
  exponential function: it is the parameter \<open>mathExp\<close>. Its arguments here are 0 or negative.

  With \<open>radius = 0\<close> the source divides 0 by 0: every entry of the kernel is \<open>NaN\<close>, and
  \<open>Math.round(NaN)\<close> is stored as 0; this case is written out in \<open>gaussianPixel\<close>. With a
  radius of at least 1, and \<open>mathExp\<close> between 0 and 1 at these arguments, no division by 0
  occurs (see \<open>weightSum_pos\<close> below). The array \<open>kernel\<close> of the source is called \<open>kern\<close> here.
\<close>

definition kernelOffsets :: "nat \<Rightarrow> (int \<times> int) list" where
  "kernelOffsets radius = List.product [- int radius..int radius] [- int radius..int radius]"

definition gaussWeight :: "(real \<Rightarrow> real) \<Rightarrow> nat \<Rightarrow> int \<times> int \<Rightarrow> real" where
  "gaussWeight mathExp radius off =
     (case off of (y, x) \<Rightarrow>
        let sigma = fdiv (real radius) 2
        in mathExp (fdiv (- fadd (fmul (real_of_int x) (real_of_int x))
                                 (fmul (real_of_int y) (real_of_int y)))
                         (fmul (fmul 2 sigma) sigma)))"

definition generateGaussianKernel :: "(real \<Rightarrow> real) \<Rightarrow> nat \<Rightarrow> real list" where
  "generateGaussianKernel mathExp radius =
     (let values = map (gaussWeight mathExp radius) (kernelOffsets radius);
          sum = foldl fadd 0 values
      in map (\<lambda>v. fdiv v sum) values)"

text \<open>The index \<open>(ky + radius) * kernelSize + (kx + radius)\<close>.\<close>

definition kernelIdx :: "nat \<Rightarrow> int \<times> int \<Rightarrow> nat" where
  "kernelIdx radius off =
     (case off of (ky, kx) \<Rightarrow>
        nat ((ky + int radius) * (int radius * 2 + 1) + (kx + int radius)))"

text \<open>The two inner loops over \<open>ky\<close> and \<open>kx\<close> visit the offsets that stay inside the buffer
  in the order of \<open>kernelOffsets\<close>, and add to \<open>sum\<close> and to \<open>weightSum\<close>.\<close>

definition gaussianPixel ::
  "real list \<Rightarrow> nat \<Rightarrow> nat \<Rightarrow> nat \<Rightarrow> byte list \<Rightarrow> nat \<times> nat \<Rightarrow> byte list \<Rightarrow> byte list" where
  "gaussianPixel kern radius w h tempAlpha yx d =
     (case yx of (y, x) \<Rightarrow>
        let idx = y * w + x; alpha = num (tempAlpha ! idx) in
        if alpha > 10 \<and> alpha < 245 then
          let inside = filter (inBounds w h y x) (kernelOffsets radius);
              sum = foldl (\<lambda>s off. fadd s (fmul (num (tempAlpha ! neighbourIdx w y x off))
                                               (kern ! kernelIdx radius off))) 0 inside;
              weightSum = foldl (\<lambda>s off. fadd s (kern ! kernelIdx radius off)) 0 inside
          in if radius = 0 then d[idx * 4 + 3 := 0]
             else d[idx * 4 + 3 := toUint8Clamp (Math_round (fdiv sum weightSum))]
        else d)"

definition gaussianPass :: "real list \<Rightarrow> nat \<Rightarrow> ImageData \<Rightarrow> ImageData" where
  "gaussianPass kern radius imageData =
     (let d = data imageData; w = width imageData; h = height imageData;
          tempAlpha = map (\<lambda>i. d ! (i * 4 + 3)) [0..<w * h]
      in imageData\<lparr>data := fold (gaussianPixel kern radius w h tempAlpha) (allCoords w h) d\<rparr>)"

definition gaussianMethod :: "(real \<Rightarrow> real) \<Rightarrow> ImageData \<Rightarrow> nat \<Rightarrow> nat \<Rightarrow> ImageData" where
  "gaussianMethod mathExp img radius passes =
     (let kern = generateGaussianKernel mathExp radius
      in (gaussianPass kern radius ^^ passes) img)"

text \<open>
  The normalized two-dimensional Gaussian with \<open>sigma = radius / 2\<close>; the sum of its weights
  over the offsets around \<open>(x, y)\<close> that stay inside the buffer; and the average of the
  alpha values there weighted by it and renormalized over them. The sums run in the order
  of the source and every operation is rounded to a double.
\<close>

definition normalizedGaussian :: "(real \<Rightarrow> real) \<Rightarrow> nat \<Rightarrow> int \<times> int \<Rightarrow> real" where
  "normalizedGaussian mathExp radius off =
     fdiv (gaussWeight mathExp radius off)
          (foldl fadd 0 (map (gaussWeight mathExp radius) (kernelOffsets radius)))"

definition weightSumOf :: "(real \<Rightarrow> real) \<Rightarrow> nat \<Rightarrow> ImageData \<Rightarrow> nat \<Rightarrow> nat \<Rightarrow> real" where
  "weightSumOf mathExp radius img x y =
     foldl (\<lambda>s off. fadd s (normalizedGaussian mathExp radius off)) 0
       (filter (inBounds (width img) (height img) y x) (kernelOffsets radius))"

definition blurredAlpha :: "(real \<Rightarrow> real) \<Rightarrow> nat \<Rightarrow> ImageData \<Rightarrow> nat \<Rightarrow> nat \<Rightarrow> real" where
  "blurredAlpha mathExp radius img x y =
     fdiv (foldl (\<lambda>s off. fadd s (fmul (num (alphaOf (data img) (neighbourIdx (width img) y x off)))
                                        (normalizedGaussian mathExp radius off))) 0
             (filter (inBounds (width img) (height img) y x) (kernelOffsets radius)))
          (weightSumOf mathExp radius img x y)"

text \<open>The alpha one step of a blur pass leaves in its slot.\<close>

definition gaussianValue ::
  "real list \<Rightarrow> nat \<Rightarrow> nat \<Rightarrow> nat \<Rightarrow> byte list \<Rightarrow> nat \<times> nat \<Rightarrow> byte \<Rightarrow> byte" where
  "gaussianValue kern radius w h tempAlpha yx old =
     (case yx of (y, x) \<Rightarrow>
        if num (tempAlpha ! (y * w + x)) > 10 \<and> num (tempAlpha ! (y * w + x)) < 245 then
          if radius = 0 then 0
          else toUint8Clamp (Math_round
                 (fdiv (foldl (\<lambda>s off. fadd s (fmul (num (tempAlpha ! neighbourIdx w y x off))
                                                    (kern ! kernelIdx radius off))) 0
                          (filter (inBounds w h y x) (kernelOffsets radius)))
                       (foldl (\<lambda>s off. fadd s (kern ! kernelIdx radius off)) 0
                          (filter (inBounds w h y x) (kernelOffsets radius)))))
        else old)"
section \<open>Concrete inputs\<close>

text \<open>A 1\<times>1 image holding the pixel (60, 0, 0, 255) and a 1\<times>1 opaque black reference.\<close>

definition img1 :: ImageData where
  "img1 = \<lparr>width = 1, height = 1, data = [60, 0, 0, 255]\<rparr>"
definition ref1 :: ImageData where
  "ref1 = \<lparr>width = 1, height = 1, data = [0, 0, 0, 255]\<rparr>"


text \<open>A 1\<times>2 image and a 2\<times>1 reference, both opaque with the colour (10, 10, 10); and a
  2\<times>1 image with a reference whose second pixel is fully transparent.\<close>

definition img3 :: ImageData where
  "img3 = \<lparr>width = 1, height = 2, data = [10, 10, 10, 255, 10, 10, 10, 255]\<rparr>"
definition ref3 :: ImageData where
  "ref3 = \<lparr>width = 2, height = 1, data = [10, 10, 10, 255, 10, 10, 10, 255]\<rparr>"

definition img6 :: ImageData where
  "img6 = \<lparr>width = 2, height = 1, data = [10, 10, 10, 255, 7, 8, 9, 200]\<rparr>"
definition ref6 :: ImageData where
  "ref6 = \<lparr>width = 2, height = 1, data = [10, 10, 10, 255, 7, 8, 9, 0]\<rparr>"

text \<open>A 1\<times>2 image of opaque pixels of the colour (10, 10, 10), and a 2\<times>2 reference
  of the same colour whose pixel in column 0 of row 1 is fully transparent.\<close>

definition imgColumn :: ImageData where
  "imgColumn = \<lparr>width = 1, height = 2, data = [10, 10, 10, 255, 10, 10, 10, 255]\<rparr>"
definition refSquare :: ImageData where
  "refSquare = \<lparr>width = 2, height = 2, data =
     [10, 10, 10, 255,  10, 10, 10, 255,
      10, 10, 10, 0,    10, 10, 10, 255]\<rparr>"

text \<open>A 2\<times>1 image with a dark grey and an orange pixel, and a dark grey target colour.\<close>

definition img10 :: ImageData where
  "img10 = \<lparr>width = 2, height = 1, data = [20, 20, 20, 255, 200, 100, 50, 180]\<rparr>"
definition grey10 :: RGB where
  "grey10 = \<lparr>rgb_r = 26, rgb_g = 26, rgb_b = 26\<rparr>"

text \<open>Buffers of black pixels with a given alpha channel: a 5\<times>5 buffer of opaque
  pixels, and a 7\<times>7 buffer holding an opaque 5\<times>5 square inside a transparent margin of
  one pixel. The two other lists are the alpha channels with one and with two rings of the
  square removed.\<close>

definition fromAlpha :: "nat \<Rightarrow> nat \<Rightarrow> byte list \<Rightarrow> ImageData" where
  "fromAlpha w h am = \<lparr>width = w, height = h, data = concat (map (\<lambda>a. [0, 0, 0, a]) am)\<rparr>"

definition square5in7 :: "byte list" where
  "square5in7 =
     [0,   0,   0,   0,   0,   0, 0,
      0, 255, 255, 255, 255, 255, 0,
      0, 255, 255, 255, 255, 255, 0,
      0, 255, 255, 255, 255, 255, 0,
      0, 255, 255, 255, 255, 255, 0,
      0, 255, 255, 255, 255, 255, 0,
      0,   0,   0,   0,   0,   0, 0]"

definition square3in7 :: "byte list" where
  "square3in7 =
     [0, 0,   0,   0,   0, 0, 0,
      0, 0,   0,   0,   0, 0, 0,
      0, 0, 255, 255, 255, 0, 0,
      0, 0, 255, 255, 255, 0, 0,
      0, 0, 255, 255, 255, 0, 0,
      0, 0,   0,   0,   0, 0, 0,
      0, 0,   0,   0,   0, 0, 0]"

definition centre1in7 :: "byte list" where
  "centre1in7 =
     [0, 0, 0,   0, 0, 0, 0,
      0, 0, 0,   0, 0, 0, 0,
      0, 0, 0,   0, 0, 0, 0,
      0, 0, 0, 255, 0, 0, 0,
      0, 0, 0,   0, 0, 0, 0,
      0, 0, 0,   0, 0, 0, 0,
      0, 0, 0,   0, 0, 0, 0]"

definition img5 :: ImageData where
  "img5 = fromAlpha 5 5 (replicate 25 255)"

definition img7 :: ImageData where
  "img7 = fromAlpha 7 7 square5in7"

text \<open>Three small buffers. In the first a pixel of alpha 128 is surrounded by opaque pixels;
  in the second a white pixel of alpha 100 is surrounded by pixels of alpha 150; in the third
  the left column is transparent and the three other columns are opaque white.\<close>

definition imgSmooth :: ImageData where
  "imgSmooth = \<lparr>width = 3, height = 3, data =
     [0, 0, 0, 255,  0, 0, 0, 255,  0, 0, 0, 255,
      0, 0, 0, 255,  0, 0, 0, 128,  0, 0, 0, 255,
      0, 0, 0, 255,  0, 0, 0, 255,  0, 0, 0, 255]\<rparr>"

definition imgCleanup :: ImageData where
  "imgCleanup = \<lparr>width = 3, height = 3, data =
     [0, 0, 0, 150,  0, 0, 0, 150,  0, 0, 0, 150,
      0, 0, 0, 150,  255, 255, 255, 100,  0, 0, 0, 150,
      0, 0, 0, 150,  0, 0, 0, 150,  0, 0, 0, 150]\<rparr>"

definition imgGlass :: ImageData where
  "imgGlass = \<lparr>width = 4, height = 3, data =
     [0, 0, 0, 0,  255, 255, 255, 255,  255, 255, 255, 255,  255, 255, 255, 255,
      0, 0, 0, 0,  255, 255, 255, 255,  255, 255, 255, 255,  255, 255, 255, 255,
      0, 0, 0, 0,  255, 255, 255, 255,  255, 255, 255, 255,  255, 255, 255, 255]\<rparr>"

text \<open>A browser in which one file decodes to the 2\<times>1 image above and every encoding
  succeeds, and options that select colour-key matting and one erosion pass.\<close>

definition browser7 :: Browser where
  "browser7 = \<lparr>decode = (\<lambda>f. if f = File ''icon.png'' then Some img10 else None),
               context2d = True, bgContext2d = True,
               encodePng = (\<lambda>img. Some (PngOf img)),
               readAsDataURL = (\<lambda>b. ''data:image/png;base64,'')\<rparr>"

definition options7 :: ProcessingOptions where
  "options7 = \<lparr>threshold = Some 30, edgeSmoothing = Some False,
                targetBackgroundColor = Some ''#1a1a1a'', edgeCleanup = None,
                erodePixels = Some 1, removeLightEdges = None, removeLiquidGlass = None,
                glassOutlineWidth = None, glassBrightness = None\<rparr>"

text \<open>A browser whose encoder returns \<open>null\<close> for images of width 3 and succeeds for all
  others; the file \<open>a.png\<close> decodes to a 3\<times>3 image, every other file to a 2\<times>1 image. The
  batch holds two pending files.\<close>

definition browser9 :: Browser where
  "browser9 = \<lparr>decode = (\<lambda>f. if f = File ''a.png'' then Some imgSmooth else Some img10),
               context2d = True, bgContext2d = True,
               encodePng = (\<lambda>img. if width img = 3 then None else Some (PngOf img)),
               readAsDataURL = (\<lambda>b. ''data:image/png;base64,'')\<rparr>"

definition settings9 :: Settings where
  "settings9 = \<lparr>useColorMode = True, referenceFile = None, backgroundColor = ''#1a1a1a'',
                 sliders = options7\<rparr>"

definition fileA :: ProcessedFile where
  "fileA = \<lparr>original = File ''a.png'', processed = None, preview = None, status = Pending,
             error = None\<rparr>"

definition fileB :: ProcessedFile where
  "fileB = \<lparr>original = File ''b.png'', processed = None, preview = None, status = Pending,
             error = None\<rparr>"

text \<open>A 2\<times>1 image of black pixels with the alphas 100 and 110; and a function that
  returns 1 at 0, the double nearest to \<open>e\<^sup>-\<^sup>2\<close> at -2 and the double nearest to
  \<open>e\<^sup>-\<^sup>4\<close> elsewhere: the blur of radius 1 applies \<open>Math.exp\<close> to 0, -2 and -4.\<close>

definition img8 :: ImageData where
  "img8 = \<lparr>width = 2, height = 1, data = [0, 0, 0, 100, 0, 0, 0, 110]\<rparr>"

definition expTable :: "real \<Rightarrow> real" where
  "expTable z =
     (if z = 0 then 1
      else if z = - 2 then 1218991862308979 / 9007199254740992
      else 1319780871589693 / 72057594037927936)"

section \<open>Facts about double-precision rounding\<close>

text \<open>The exponent found by the search is the one of the binade: \<open>2 ^ e \<le> x < 2 ^ (e + 1)\<close>,
  cut off at -1022 and at 1023.\<close>

lemma pow2_pos: "0 < pow2 e"
  by (simp add: pow2_def)

lemma pow2_add: "pow2 (a + b) = pow2 a * pow2 b"
  unfolding pow2_def by (rule power_int_add) simp

lemma pow2_mono: "a \<le> b \<Longrightarrow> pow2 a \<le> pow2 b"
  unfolding pow2_def by (rule power_int_increasing) simp_all

lemma pow2_strict_mono: "a < b \<Longrightarrow> pow2 a < pow2 b"
  unfolding pow2_def by (rule power_int_strict_increasing) simp_all

lemma pow2_nat: "pow2 (int n) = 2 ^ n"
  by (simp add: pow2_def)

lemma pow2_0: "pow2 0 = 1"
  by (simp add: pow2_def)

lemma pow2_Suc: "pow2 (e + 1) = 2 * pow2 e"
  using pow2_add [of e 1] by (simp add: pow2_def)

lemma expoUp_spec:
  "e0 \<le> 1023 \<Longrightarrow> pow2 e0 \<le> x \<Longrightarrow>
     e0 \<le> expoUp x e0 \<and> expoUp x e0 \<le> 1023 \<and> pow2 (expoUp x e0) \<le> x \<and>
     (expoUp x e0 < 1023 \<longrightarrow> x < pow2 (expoUp x e0 + 1))"
proof (induction x e0 rule: expoUp.induct)
  case (1 x e)
  show ?case
  proof (cases "e < 1023 \<and> pow2 (e + 1) \<le> x")
    case True
    then have "expoUp x e = expoUp x (e + 1)"
      by (subst expoUp.simps) simp
    moreover have "e + 1 \<le> expoUp x (e + 1) \<and> expoUp x (e + 1) \<le> 1023 \<and>
        pow2 (expoUp x (e + 1)) \<le> x \<and>
        (expoUp x (e + 1) < 1023 \<longrightarrow> x < pow2 (expoUp x (e + 1) + 1))"
      using 1 True by simp
    ultimately show ?thesis
      by simp
  next
    case False
    then have "expoUp x e = e"
      by (subst expoUp.simps) auto
    then show ?thesis
      using False 1(2,3) by auto
  qed
qed

lemma expoDown_spec:
  "- 1022 \<le> e0 \<Longrightarrow> x < pow2 (e0 + 1) \<Longrightarrow>
     expoDown x e0 \<le> e0 \<and> - 1022 \<le> expoDown x e0 \<and> x < pow2 (expoDown x e0 + 1) \<and>
     (- 1022 < expoDown x e0 \<longrightarrow> pow2 (expoDown x e0) \<le> x)"
proof (induction x e0 rule: expoDown.induct)
  case (1 x e)
  show ?case
  proof (cases "- 1022 < e \<and> x < pow2 e")
    case True
    then have "expoDown x e = expoDown x (e - 1)"
      by (subst expoDown.simps) simp
    moreover have "expoDown x (e - 1) \<le> e - 1 \<and> - 1022 \<le> expoDown x (e - 1) \<and>
        x < pow2 (expoDown x (e - 1) + 1) \<and>
        (- 1022 < expoDown x (e - 1) \<longrightarrow> pow2 (expoDown x (e - 1)) \<le> x)"
      using 1 True by simp
    ultimately show ?thesis
      by simp
  next
    case False
    then have "expoDown x e = e"
      by (subst expoDown.simps) auto
    then show ?thesis
      using False 1(2,3) by auto
  qed
qed

lemma exponent_spec:
  "- 1022 \<le> exponent x" "exponent x \<le> 1023"
  "- 1022 < exponent x \<Longrightarrow> pow2 (exponent x) \<le> x"
  "exponent x < 1023 \<Longrightarrow> x < pow2 (exponent x + 1)"
proof -
  have "- 1022 \<le> exponent x \<and> exponent x \<le> 1023 \<and>
      (- 1022 < exponent x \<longrightarrow> pow2 (exponent x) \<le> x) \<and>
      (exponent x < 1023 \<longrightarrow> x < pow2 (exponent x + 1))"
  proof (cases "1 \<le> x")
    case True
    then have "pow2 0 \<le> x"
      by (simp add: pow2_0)
    then show ?thesis
      using expoUp_spec [of 0 x] True by (simp add: exponent_def)
  next
    case False
    then have "x < pow2 (0 + 1)"
      by (simp add: pow2_def)
    then show ?thesis
      using expoDown_spec [of 0 x] False by (simp add: exponent_def)
  qed
  then show "- 1022 \<le> exponent x" "exponent x \<le> 1023"
    "- 1022 < exponent x \<Longrightarrow> pow2 (exponent x) \<le> x"
    "exponent x < 1023 \<Longrightarrow> x < pow2 (exponent x + 1)"
    by simp_all
qed

lemma exponent_eq:
  assumes "pow2 e \<le> x" "x < pow2 (e + 1)" "- 1022 \<le> e" "e \<le> 1023"
  shows "exponent x = e"
proof (rule ccontr)
  assume ne: "exponent x \<noteq> e"
  show False
  proof (cases "exponent x < e")
    case True
    then have "x < pow2 (exponent x + 1)"
      using exponent_spec(4) [of x] assms(4) by simp
    also have "\<dots> \<le> pow2 e"
      using True by (intro pow2_mono) simp
    finally show False
      using assms(1) by simp
  next
    case False
    then have gt: "e < exponent x"
      using ne by simp
    then have "pow2 (e + 1) \<le> pow2 (exponent x)"
      by (intro pow2_mono) simp
    also have "\<dots> \<le> x"
      using exponent_spec(3) [of x] gt assms(3) by simp
    finally show False
      using assms(2) by simp
  qed
qed

lemma exponent_subnormal:
  assumes "x < pow2 (- 1022)"
  shows "exponent x = - 1022"
proof (rule ccontr)
  assume "exponent x \<noteq> - 1022"
  then have gt: "- 1022 < exponent x"
    using exponent_spec(1) [of x] by simp
  then have "pow2 (- 1022) \<le> pow2 (exponent x)"
    by (intro pow2_mono) simp
  also have "\<dots> \<le> x"
    using exponent_spec(3) [OF gt] .
  finally show False
    using assms by simp
qed

lemma exponent_mono:
  assumes "x \<le> y"
  shows "exponent x \<le> exponent y"
proof (rule ccontr)
  assume "\<not> exponent x \<le> exponent y"
  then have lt: "exponent y < exponent x"
    by simp
  have "y < pow2 (exponent y + 1)"
    using exponent_spec(4) [of y] exponent_spec(2) [of x] lt by simp
  also have "\<dots> \<le> pow2 (exponent x)"
    using lt by (intro pow2_mono) simp
  also have "\<dots> \<le> x"
    using exponent_spec(3) [of x] exponent_spec(1) [of y] lt by simp
  finally show False
    using assms by simp
qed

lemma rne_cases:
  "rne x = \<lfloor>x\<rfloor> \<or> rne x = \<lfloor>x\<rfloor> + 1"
  by (simp add: rne_def Let_def)

lemma rne_of_int: "rne (real_of_int n) = n"
  by (simp add: rne_def Let_def)

lemma rne_mono:
  assumes "x \<le> y"
  shows "rne x \<le> rne y"
proof (cases "\<lfloor>x\<rfloor> < \<lfloor>y\<rfloor>")
  case True
  have "rne x \<le> \<lfloor>x\<rfloor> + 1"
    using rne_cases [of x] by auto
  also have "\<dots> \<le> \<lfloor>y\<rfloor>"
    using True by simp
  also have "\<dots> \<le> rne y"
    using rne_cases [of y] by auto
  finally show ?thesis .
next
  case False
  then have eq: "\<lfloor>x\<rfloor> = \<lfloor>y\<rfloor>"
    using floor_mono [OF assms] by simp
  have "x - real_of_int \<lfloor>y\<rfloor> \<le> y - real_of_int \<lfloor>y\<rfloor>"
    using assms by simp
  then show ?thesis
    unfolding rne_def Let_def eq by auto
qed

lemma rne_minus: "rne (- x) = - rne x"
proof (cases "x = real_of_int \<lfloor>x\<rfloor>")
  case True
  then have "rne x = \<lfloor>x\<rfloor>"
    using rne_of_int [of "\<lfloor>x\<rfloor>"] by simp
  moreover have "- x = real_of_int (- \<lfloor>x\<rfloor>)"
    using True by simp
  then have "rne (- x) = - \<lfloor>x\<rfloor>"
    using rne_of_int [of "- \<lfloor>x\<rfloor>"] by simp
  ultimately show ?thesis
    by simp
next
  case False
  define f where "f = \<lfloor>x\<rfloor>"
  have lo: "real_of_int f < x"
    using False f_def by (metis floor_correct less_eq_real_def)
  have hi: "x < real_of_int f + 1"
    unfolding f_def by linarith
  have fm: "\<lfloor>- x\<rfloor> = - f - 1"
    using lo hi by (intro floor_unique) simp_all
  show ?thesis
    unfolding rne_def Let_def fm f_def [symmetric]
    using lo hi by auto
qed

lemma fl_0: "fl 0 = 0"
  by (simp add: fl_def)

lemma fl_minus: "fl (- x) = - fl x"
  by (simp add: fl_def Let_def rne_minus)

lemma fl_nonneg:
  assumes "0 \<le> x"
  shows "0 \<le> fl x"
proof -
  have "0 \<le> x / pow2 (exponent \<bar>x\<bar> - 52)"
    using assms pow2_pos [of "exponent \<bar>x\<bar> - 52"] by simp
  then have "rne 0 \<le> rne (x / pow2 (exponent \<bar>x\<bar> - 52))"
    by (rule rne_mono)
  then have "0 \<le> rne (x / pow2 (exponent \<bar>x\<bar> - 52))"
    using rne_of_int [of 0] by simp
  then show ?thesis
    using pow2_pos [of "exponent \<bar>x\<bar> - 52"] by (simp add: fl_def Let_def)
qed

lemma fl_lower:
  assumes "0 < x" "- 1022 < exponent x"
  shows "pow2 (exponent x) \<le> fl x"
proof -
  define e where "e = exponent x"
  define u where "u = pow2 (e - 52)"
  have u: "0 < u"
    unfolding u_def by (rule pow2_pos)
  have "pow2 (52 + (e - 52)) = 2 ^ 52 * u"
    unfolding pow2_add u_def by (simp add: pow2_def)
  moreover have "52 + (e - 52) = e"
    by simp
  ultimately have pe: "pow2 e = 2 ^ 52 * u"
    by (simp only:)
  have "pow2 e \<le> x"
    unfolding e_def using assms(2) by (rule exponent_spec(3))
  then have "2 ^ 52 * u \<le> x"
    unfolding pe by simp
  then have "real_of_int (2 ^ 52) \<le> x / u"
    using u by (simp add: field_simps)
  then have "rne (real_of_int (2 ^ 52)) \<le> rne (x / u)"
    by (rule rne_mono)
  then have "2 ^ 52 \<le> rne (x / u)"
    unfolding rne_of_int .
  then have "real_of_int (2 ^ 52) \<le> real_of_int (rne (x / u))"
    by (simp only: of_int_le_iff)
  then have "2 ^ 52 * u \<le> real_of_int (rne (x / u)) * u"
    using u by simp
  moreover have "fl x = real_of_int (rne (x / u)) * u"
    using assms(1) by (simp add: fl_def Let_def u_def e_def)
  ultimately show ?thesis
    unfolding e_def [symmetric] pe by simp
qed

lemma fl_upper:
  assumes "0 < x" "exponent x < 1023"
  shows "fl x \<le> pow2 (exponent x + 1)"
proof -
  define e where "e = exponent x"
  define u where "u = pow2 (e - 52)"
  have u: "0 < u"
    unfolding u_def by (rule pow2_pos)
  have "pow2 (53 + (e - 52)) = 2 ^ 53 * u"
    unfolding pow2_add u_def by (simp add: pow2_def)
  moreover have "53 + (e - 52) = e + 1"
    by simp
  ultimately have pe: "pow2 (e + 1) = 2 ^ 53 * u"
    by (simp only:)
  have "x < pow2 (e + 1)"
    unfolding e_def using assms(2) by (rule exponent_spec(4))
  then have "x \<le> 2 ^ 53 * u"
    unfolding pe by simp
  then have "x / u \<le> real_of_int (2 ^ 53)"
    using u by (simp add: field_simps)
  then have "rne (x / u) \<le> rne (real_of_int (2 ^ 53))"
    by (rule rne_mono)
  then have "rne (x / u) \<le> 2 ^ 53"
    unfolding rne_of_int .
  then have "real_of_int (rne (x / u)) \<le> real_of_int (2 ^ 53)"
    by (simp only: of_int_le_iff)
  then have "real_of_int (rne (x / u)) * u \<le> 2 ^ 53 * u"
    using u by simp
  moreover have "fl x = real_of_int (rne (x / u)) * u"
    using assms(1) by (simp add: fl_def Let_def u_def e_def)
  ultimately show ?thesis
    unfolding e_def [symmetric] pe by simp
qed

lemma fl_mono_pos:
  assumes "0 < x" "x \<le> y"
  shows "fl x \<le> fl y"
proof -
  have y: "0 < y"
    using assms by simp
  have le: "exponent x \<le> exponent y"
    using assms(2) by (rule exponent_mono)
  show ?thesis
  proof (cases "exponent x = exponent y")
    case True
    define u where "u = pow2 (exponent y - 52)"
    have u: "0 < u"
      unfolding u_def by (rule pow2_pos)
    have "x / u \<le> y / u"
      using assms(2) u by (simp add: divide_right_mono)
    then have "rne (x / u) \<le> rne (y / u)"
      by (rule rne_mono)
    then have "real_of_int (rne (x / u)) * u \<le> real_of_int (rne (y / u)) * u"
      using u by simp
    then show ?thesis
      using assms(1) y True by (simp add: fl_def Let_def u_def)
  next
    case False
    then have lt: "exponent x < exponent y"
      using le by simp
    have "fl x \<le> pow2 (exponent x + 1)"
      using assms(1) lt exponent_spec(2) [of y] by (intro fl_upper) simp_all
    also have "\<dots> \<le> pow2 (exponent y)"
      using lt by (intro pow2_mono) simp
    also have "\<dots> \<le> fl y"
      using y lt exponent_spec(1) [of x] by (intro fl_lower) simp_all
    finally show ?thesis .
  qed
qed

lemma fl_mono:
  assumes "x \<le> y"
  shows "fl x \<le> fl y"
proof (cases "0 < x")
  case True
  then show ?thesis
    using assms by (rule fl_mono_pos)
next
  case nx: False
  show ?thesis
  proof (cases "0 \<le> y")
    case True
    have "0 \<le> fl (- x)"
      using nx by (intro fl_nonneg) simp
    then have "fl x \<le> 0"
      using fl_minus [of x] by simp
    also have "0 \<le> fl y"
      using True by (rule fl_nonneg)
    finally show ?thesis .
  next
    case False
    then have "0 < - y" "- y \<le> - x"
      using assms by simp_all
    then have "fl (- y) \<le> fl (- x)"
      by (rule fl_mono_pos)
    then show ?thesis
      by (simp add: fl_minus)
  qed
qed

lemma fl_eval:
  assumes "pow2 e \<le> \<bar>x\<bar>" "\<bar>x\<bar> < pow2 (e + 1)" "- 1022 \<le> e" "e \<le> 1023"
  shows "fl x = real_of_int (rne (x / pow2 (e - 52))) * pow2 (e - 52)"
proof -
  have "x \<noteq> 0"
    using assms(1) pow2_pos [of e] by auto
  then show ?thesis
    using exponent_eq [OF assms] by (simp add: fl_def Let_def)
qed

lemma fl_of_int:
  assumes "\<bar>n\<bar> \<le> 2 ^ 53"
  shows "fl (real_of_int n) = real_of_int n"
proof (cases "n = 0")
  case True
  then show ?thesis
    by (simp add: fl_0)
next
  case False
  define x where "x = \<bar>real_of_int n\<bar>"
  define e where "e = exponent x"
  have x1: "1 \<le> x"
    using False unfolding x_def by (simp flip: of_int_abs)
  have xu: "x \<le> 2 ^ 53"
    using assms unfolding x_def by (simp flip: of_int_abs)
  have "pow2 0 \<le> x"
    using x1 by (simp add: pow2_0)
  then have e0: "0 \<le> e"
    using expoUp_spec [of 0 x] x1 by (simp add: e_def exponent_def)
  have "pow2 e \<le> x"
    unfolding e_def using e0 e_def by (intro exponent_spec(3)) simp
  then have "pow2 e \<le> pow2 53"
    using xu by (simp add: pow2_def)
  then have e53: "e \<le> 53"
    using pow2_strict_mono [of 53 e] by (cases "e \<le> 53") simp_all
  obtain k where k: "pow2 (e - 52) * 2 ^ k = 1 \<or> pow2 (e - 52) = 2"
  proof (cases "e = 53")
    case True
    then show ?thesis
      using that [of 0] by (simp add: pow2_def)
  next
    case False
    then have "0 \<le> 52 - e"
      using e53 by simp
    have "pow2 (e - 52) * pow2 (52 - e) = 1"
      using pow2_add [of "e - 52" "52 - e"] by (simp add: pow2_0)
    moreover have "pow2 (52 - e) = 2 ^ nat (52 - e)"
      using \<open>0 \<le> 52 - e\<close> by (simp add: pow2_def power_int_def)
    ultimately show ?thesis
      using that [of "nat (52 - e)"] by simp
  qed
  define u where "u = pow2 (e - 52)"
  have u: "0 < u"
    unfolding u_def by (rule pow2_pos)
  have "\<exists>m. real_of_int n / u = real_of_int m"
  proof -
    from k show ?thesis
    proof
      assume "pow2 (e - 52) * 2 ^ k = 1"
      then have "1 / u = 2 ^ k"
        using u by (simp add: u_def field_simps)
      moreover have "real_of_int n / u = real_of_int n * (1 / u)"
        by simp
      ultimately have "real_of_int n / u = real_of_int (n * 2 ^ k)"
        by (simp only: of_int_mult of_int_power of_int_numeral)
      then show ?thesis
        by blast
    next
      assume u2: "pow2 (e - 52) = 2"
      then have e: "e = 53"
        using pow2_strict_mono [of "e - 52" 1] pow2_strict_mono [of 1 "e - 52"]
        by (cases "e - 52 < 1"; cases "1 < e - 52") (simp_all add: pow2_def)
      then have "pow2 53 \<le> x"
        using \<open>pow2 e \<le> x\<close> by simp
      then have "x = 2 ^ 53"
        using xu by (simp add: pow2_def)
      then have "\<bar>n\<bar> = 2 ^ 53"
        unfolding x_def by (simp flip: of_int_abs)
      then have "n = 2 ^ 53 \<or> n = - (2 ^ 53)"
        by auto
      then have "real_of_int n / 2 = real_of_int (n div 2)"
        by auto
      then show ?thesis
        using u2 unfolding u_def by auto
    qed
  qed
  then obtain m where m: "real_of_int n / u = real_of_int m"
    by blast
  have "fl (real_of_int n) = real_of_int (rne (real_of_int n / u)) * u"
    using False by (simp add: fl_def Let_def u_def e_def x_def)
  also have "\<dots> = real_of_int m * u"
    unfolding m rne_of_int ..
  also have "\<dots> = real_of_int n"
    using m u by (simp add: field_simps)
  finally show ?thesis .
qed

text \<open>Numbers that are doubles are not changed by the rounding.\<close>

lemma fl_of_nat:
  assumes "n \<le> 2 ^ 53"
  shows "fl (real n) = real n"
proof -
  have "int n \<le> int (2 ^ 53)"
    using assms by (rule of_nat_mono)
  then have "\<bar>int n\<bar> \<le> 2 ^ 53"
    by simp
  then show ?thesis
    using fl_of_int [of "int n"] by simp
qed

lemma fl_1: "fl 1 = 1"
  using fl_of_nat [of 1] by simp


lemma fl_quarter: "fl (1 / 4) = 1 / 4"
  by (simp add: fl_def exponent_def expoUp.simps expoDown.simps pow2_def rne_def Let_def)

lemma fl_pos_imp_pos:
  assumes "0 < fl x"
  shows "0 < x"
proof (rule ccontr)
  assume "\<not> 0 < x"
  then have "fl x \<le> fl 0"
    by (intro fl_mono) simp
  then show False
    using assms by (simp add: fl_0)
qed

lemma fl_less_imp_less:
  assumes "fl x < fl y"
  shows "x < y"
proof (rule ccontr)
  assume "\<not> x < y"
  then have "fl y \<le> fl x"
    by (intro fl_mono) simp
  then show False
    using assms by simp
qed

text \<open>The definitions that evaluate a rounded operation on given numbers.\<close>

lemmas fl_compute = fl_def exponent_def expoUp.simps expoDown.simps pow2_def rne_def Let_def
  fadd_def fsub_def fmul_def fdiv_def

section \<open>General facts\<close>

lemma num_nonneg: "0 \<le> num b"
  unfolding num_def by (rule of_nat_0_le_iff)

lemma unat_byte_less: "unat (b::byte) < 256"
  using unsigned_less [of b, where ?'a = nat] by simp

lemma num_le_255: "num b \<le> 255"
proof -
  have "unat b \<le> 255"
    using unat_byte_less [of b] by simp
  then have "real (unat b) \<le> real 255"
    by (rule of_nat_mono)
  then show ?thesis
    by (simp add: num_def)
qed

lemma num_eq_0_iff: "num b = 0 \<longleftrightarrow> b = 0"
proof -
  have "num b = 0 \<longleftrightarrow> unat b = 0"
    unfolding num_def by (rule of_nat_eq_0_iff)
  then show ?thesis
    by (simp add: unsigned_eq_0_iff)
qed

lemma num_0: "num 0 = 0"
  by (simp add: num_eq_0_iff)

lemma num_pos_iff: "0 < num b \<longleftrightarrow> b \<noteq> 0"
  using num_nonneg [of b] num_eq_0_iff [of b] by linarith

lemma word_of_int_unat: "word_of_int (int (unat b)) = (b::byte)"
  by simp

lemma toUint8Clamp_of_nat:
  assumes "n \<le> 255"
  shows "toUint8Clamp (real n) = (word_of_int (int n) :: byte)"
proof -
  have fn: "\<lfloor>real n\<rfloor> = int n"
    by simp
  show ?thesis
  proof (cases "n = 0")
    case True
    then show ?thesis by (simp add: toUint8Clamp_def)
  next
    case False
    show ?thesis
    proof (cases "n = 255")
      case True
      then show ?thesis by (simp add: toUint8Clamp_def)
    next
      case F: False
      then have "\<not> 255 \<le> real n" "\<not> real n \<le> 0"
        using assms False by auto
      then show ?thesis
        unfolding toUint8Clamp_def Let_def fn by simp
    qed
  qed
qed

lemma toUint8Clamp_num: "toUint8Clamp (num b) = b"
proof -
  have "unat b \<le> 255"
    using unat_byte_less [of b] by simp
  then show ?thesis
    unfolding num_def using toUint8Clamp_of_nat [of "unat b"] word_of_int_unat [of b] by simp
qed

lemma toUint8Clamp_zero: "v \<le> 0 \<Longrightarrow> toUint8Clamp v = 0"
  by (simp add: toUint8Clamp_def)

lemma Math_round_zero: "0 \<le> x \<Longrightarrow> x < 1/2 \<Longrightarrow> Math_round x = 0"
  unfolding Math_round_def by (simp add: floor_eq_iff)

lemma Math_round_mono: "x \<le> y \<Longrightarrow> Math_round x \<le> Math_round y"
  unfolding Math_round_def by (simp add: floor_mono)

lemma set_stride4: "i \<in> set (stride4 n) \<longleftrightarrow> i mod 4 = 0 \<and> i < n"
proof
  assume "i \<in> set (stride4 n)"
  then obtain k where "i = 4 * k" "k < (n + 3) div 4"
    by (auto simp: stride4_def)
  then show "i mod 4 = 0 \<and> i < n"
    by auto
next
  assume h: "i mod 4 = 0 \<and> i < n"
  then have "i = 4 * (i div 4)" "i div 4 < (n + 3) div 4"
    by auto
  then show "i \<in> set (stride4 n)"
    unfolding stride4_def set_map set_upt by (intro image_eqI [where x = "i div 4"]) simp_all
qed

lemma distinct_stride4: "distinct (stride4 n)"
  by (simp add: stride4_def distinct_map inj_on_def)

text \<open>
  A loop that visits distinct pixels and at each one only replaces that pixel's alpha, by a
  value computed from that pixel's own four bytes, computes each pixel independently.
\<close>

lemma fold_own_pixel_length:
  assumes "\<And>i d. step i d = d[i + 3 := h i (d ! i) (d ! (i + 1)) (d ! (i + 2)) (d ! (i + 3))]"
  shows "length (fold step is d) = length d"
  by (induction "is" arbitrary: d) (simp_all add: assms)

lemma fold_own_pixel_other:
  assumes step: "\<And>i d. step i d = d[i + 3 := h i (d ! i) (d ! (i + 1)) (d ! (i + 2)) (d ! (i + 3))]"
    and "\<forall>k \<in> set ks. j \<noteq> 4 * k + 3"
  shows "fold step (map (\<lambda>k. 4 * k) ks) d ! j = d ! j"
  using assms(2)
proof (induction ks arbitrary: d)
  case Nil
  then show ?case by simp
next
  case (Cons k ks)
  have "fold step (map (\<lambda>k. 4 * k) (k # ks)) d ! j = step (4 * k) d ! j"
    using Cons by simp
  also have "\<dots> = d ! j"
    using Cons.prems by (simp add: step)
  finally show ?case .
qed

lemma fold_own_pixel_alpha:
  assumes step: "\<And>i d. step i d = d[i + 3 := h i (d ! i) (d ! (i + 1)) (d ! (i + 2)) (d ! (i + 3))]"
    and "distinct ks" and "k \<in> set ks" and "4 * k + 3 < length d"
  shows "fold step (map (\<lambda>k. 4 * k) ks) d ! (4 * k + 3) =
           h (4 * k) (d ! (4 * k)) (d ! (4 * k + 1)) (d ! (4 * k + 2)) (d ! (4 * k + 3))"
  using assms(2-4)
proof (induction ks arbitrary: d)
  case Nil
  then show ?case by simp
next
  case (Cons k' ks)
  let ?d' = "step (4 * k') d"
  have len: "length ?d' = length d"
    by (simp add: step)
  show ?case
  proof (cases "k = k'")
    case True
    then have "\<forall>m \<in> set ks. 4 * k + 3 \<noteq> 4 * m + 3"
      using Cons.prems(1) by auto
    then have A: "fold step (map (\<lambda>k. 4 * k) ks) ?d' ! (4 * k + 3) = ?d' ! (4 * k + 3)"
      by (rule fold_own_pixel_other [OF step])
    have B: "?d' ! (4 * k + 3) =
               h (4 * k) (d ! (4 * k)) (d ! (4 * k + 1)) (d ! (4 * k + 2)) (d ! (4 * k + 3))"
      using True Cons.prems(3) by (simp add: step)
    have C: "fold step (map (\<lambda>k. 4 * k) (k' # ks)) d = fold step (map (\<lambda>k. 4 * k) ks) ?d'"
      by simp
    show ?thesis
      unfolding C A B ..
  next
    case False
    then have mem: "k \<in> set ks" and dist: "distinct ks"
      using Cons.prems by auto
    have "fold step (map (\<lambda>k. 4 * k) ks) ?d' ! (4 * k + 3) =
            h (4 * k) (?d' ! (4 * k)) (?d' ! (4 * k + 1)) (?d' ! (4 * k + 2)) (?d' ! (4 * k + 3))"
      using Cons.IH [OF dist mem, of ?d'] Cons.prems(3) len by simp
    moreover have "?d' ! (4 * k) = d ! (4 * k)" "?d' ! (4 * k + 1) = d ! (4 * k + 1)"
      "?d' ! (4 * k + 2) = d ! (4 * k + 2)" "?d' ! (4 * k + 3) = d ! (4 * k + 3)"
    proof -
      have "4 * k' + 3 \<noteq> 4 * k" "4 * k' + 3 \<noteq> 4 * k + 1" "4 * k' + 3 \<noteq> 4 * k + 2"
        "4 * k' + 3 \<noteq> 4 * k + 3"
        using False by presburger+
      then show "?d' ! (4 * k) = d ! (4 * k)" "?d' ! (4 * k + 1) = d ! (4 * k + 1)"
        "?d' ! (4 * k + 2) = d ! (4 * k + 2)" "?d' ! (4 * k + 3) = d ! (4 * k + 3)"
        unfolding step by simp_all
    qed
    ultimately show ?thesis
      by simp
  qed
qed

lemma length_filter_mono:
  assumes "\<And>x. x \<in> set xs \<Longrightarrow> P x \<Longrightarrow> Q x"
  shows "length (filter P xs) \<le> length (filter Q xs)"
  using assms by (induction xs) auto

lemma pixel_in_range: "k < length d div 4 \<Longrightarrow> 4 * k + 3 < length d"
  by auto

lemma wf_pixel_in_range:
  "wf_ImageData img \<Longrightarrow> (k < width img * height img \<longleftrightarrow> 4 * k + 3 < length (data img))"
  unfolding wf_ImageData_def by auto

lemma row_major_bound:
  fixes x y w h :: nat
  assumes "x < w"
  shows "y * w + x < w * h \<longleftrightarrow> y < h"
proof
  assume "y < h"
  then have "Suc y \<le> h"
    by simp
  then have "Suc y * w \<le> h * w"
    by (rule mult_le_mono1)
  moreover have "y * w + x < Suc y * w"
    using assms by simp
  moreover have "w * h = h * w"
    by (rule mult.commute)
  ultimately show "y * w + x < w * h"
    by linarith
next
  assume a: "y * w + x < w * h"
  show "y < h"
  proof (rule ccontr)
    assume "\<not> y < h"
    then have "h \<le> y"
      by simp
    then have "h * w \<le> y * w"
      by (rule mult_le_mono1)
    moreover have "w * h = h * w"
      by (rule mult.commute)
    ultimately show False
      using a by linarith
  qed
qed

text \<open>
  A loop over distinct slots of an array that at each slot only replaces that slot, by a value
  computed from the slot's own content, computes each slot independently.
\<close>

lemma fold_slot_length:
  assumes "\<And>x a. step x a = a[p x := g x (a ! p x)]"
  shows "length (fold step xs a) = length a"
  by (induction xs arbitrary: a) (simp_all add: assms)

lemma fold_slot_other:
  assumes step: "\<And>x a. step x a = a[p x := g x (a ! p x)]"
    and "\<forall>x \<in> set xs. p x \<noteq> k"
  shows "fold step xs a ! k = a ! k"
  using assms(2)
proof (induction xs arbitrary: a)
  case Nil
  then show ?case by simp
next
  case (Cons x xs)
  have "fold step (x # xs) a ! k = step x a ! k"
    using Cons by simp
  also have "\<dots> = a ! k"
    using Cons.prems by (simp add: step)
  finally show ?case .
qed

lemma fold_slot_self:
  assumes step: "\<And>x a. step x a = a[p x := g x (a ! p x)]"
    and "distinct (map p xs)" and "x \<in> set xs" and "p x < length a"
  shows "fold step xs a ! p x = g x (a ! p x)"
  using assms(2-4)
proof (induction xs arbitrary: a)
  case Nil
  then show ?case by simp
next
  case (Cons x' xs)
  let ?a' = "step x' a"
  have len: "length ?a' = length a"
    by (simp add: step)
  have C: "fold step (x' # xs) a = fold step xs ?a'"
    by simp
  show ?case
  proof (cases "x = x'")
    case True
    have "p x' \<notin> p ` set xs"
      using Cons.prems(1) by simp
    then have "\<forall>z \<in> set xs. p z \<noteq> p x"
      unfolding True by (metis image_eqI)
    then have A: "fold step xs ?a' ! p x = ?a' ! p x"
      by (rule fold_slot_other [OF step])
    have B: "?a' ! p x = g x (a ! p x)"
      using True Cons.prems(3) by (simp add: step)
    show ?thesis
      unfolding C A B ..
  next
    case False
    then have mem: "x \<in> set xs" and dist: "distinct (map p xs)"
      using Cons.prems by auto
    have ne: "p x' \<noteq> p x"
      using Cons.prems(1) mem by auto
    have A: "fold step xs ?a' ! p x = g x (?a' ! p x)"
      using Cons.IH [OF dist mem, of ?a'] Cons.prems(3) len by simp
    have B: "?a' ! p x = a ! p x"
      using ne by (simp add: step)
    show ?thesis
      unfolding C A B ..
  qed
qed

lemma fold_invariant:
  assumes "\<And>x s. x \<in> set xs \<Longrightarrow> I s \<Longrightarrow> I (f x s)" and "I s"
  shows "I (fold f xs s)"
  using assms by (induction xs arbitrary: s) auto

lemma row_major_inj:
  fixes x y x' y' w :: nat
  assumes "y * w + x = y' * w + x'" "x < w" "x' < w"
  shows "y = y' \<and> x = x'"
proof -
  have "(y * w + x) div w = y" "(y' * w + x') div w = y'"
    using assms(2,3) by simp_all
  then have "y = y'"
    using assms(1) by simp
  then show ?thesis
    using assms(1) by simp
qed

lemma distinct_row_major:
  fixes w :: nat
  assumes "distinct ys" "distinct xs" "\<forall>x \<in> set xs. x < w"
  shows "distinct (map (\<lambda>(y, x). y * w + x) (List.product ys xs))"
proof -
  have "inj_on (\<lambda>(y, x). y * w + x) (set (List.product ys xs))"
  proof (rule inj_onI)
    fix a b
    assume a: "a \<in> set (List.product ys xs)" and b: "b \<in> set (List.product ys xs)"
      and eq: "(case a of (y, x) \<Rightarrow> y * w + x) = (case b of (y, x) \<Rightarrow> y * w + x)"
    obtain y x where a': "a = (y, x)"
      by (cases a) auto
    obtain y' x' where b': "b = (y', x')"
      by (cases b) auto
    have xw: "x < w" "x' < w"
      using a b a' b' assms(3) by auto
    have "y * w + x = y' * w + x'"
      using eq a' b' by simp
    then have "y = y' \<and> x = x'"
      using xw by (rule row_major_inj)
    then show "a = b"
      by (simp add: a' b')
  qed
  moreover have "distinct (List.product ys xs)"
    using assms(1,2) by (rule distinct_product)
  ultimately show ?thesis
    by (simp add: distinct_map)
qed

lemma distinct_interiorCoords:
  "distinct (map (\<lambda>(y, x). y * w + x) (interiorCoords w h))"
  unfolding interiorCoords_def by (rule distinct_row_major) auto

lemma distinct_allCoords:
  "distinct (map (\<lambda>(y, x). y * w + x) (allCoords w h))"
  unfolding allCoords_def by (rule distinct_row_major) auto

lemma interiorCoords_iff:
  "(y, x) \<in> set (interiorCoords w h) \<longleftrightarrow> 1 \<le> y \<and> y + 1 < h \<and> 1 \<le> x \<and> x + 1 < w"
  unfolding interiorCoords_def by auto

lemma allCoords_iff:
  "(y, x) \<in> set (allCoords w h) \<longleftrightarrow> y < h \<and> x < w"
  unfolding allCoords_def by auto

text \<open>The neighbours of a non-border pixel lie in the buffer.\<close>

lemma neighbourIdx_interior:
  assumes "(y, x) \<in> set (interiorCoords w h)" "off \<in> set window9"
  shows "neighbourIdx w y x off < w * h"
proof -
  obtain dy dx where off: "off = (dy, dx)"
    by (cases off) auto
  have b: "1 \<le> y" "y + 1 < h" "1 \<le> x" "x + 1 < w"
    using assms(1) by (simp_all add: interiorCoords_iff)
  have d: "-1 \<le> dy" "dy \<le> 1" "-1 \<le> dx" "dx \<le> 1"
    using assms(2) off by (auto simp: window9_def)
  have "nat (int x + dx) < w" "nat (int y + dy) < h"
    using b d by linarith+
  then show ?thesis
    unfolding off neighbourIdx_def prod.case by (simp add: row_major_bound)
qed

lemma neighbours8_subset: "set neighbours8 \<subseteq> set window9"
  by (simp add: neighbours8_def window9_def)

section \<open>Facts about reference-mode matting\<close>

lemma unat_word_of_nat_byte: "n \<le> 255 \<Longrightarrow> unat (word_of_int (int n) :: byte) = n"
  by (simp add: unat_of_nat)

lemma num_word_of_nat: "n \<le> 255 \<Longrightarrow> num (word_of_int (int n)) = real n"
  unfolding num_def using unat_word_of_nat_byte [of n] by simp

lemma num_toUint8Clamp_int:
  assumes "0 \<le> n" "n \<le> 255"
  shows "num (toUint8Clamp (real_of_int n)) = real_of_int n"
proof -
  have "nat n \<le> 255" using assms by simp
  moreover have "real (nat n) = real_of_int n" using assms by simp
  ultimately show ?thesis
    using toUint8Clamp_of_nat [of "nat n"] num_word_of_nat [of "nat n"] by simp
qed

text \<open>The difference of two bytes is a double.\<close>

lemma num_nat: "\<exists>i. num a = real i \<and> i \<le> 255"
proof -
  have "unat a \<le> 255"
    using unat_byte_less [of a] by simp
  then show ?thesis
    unfolding num_def by blast
qed

lemma fsub_bytes: "fsub (num a) (num b) = num a - num b"
proof -
  obtain i j where n: "num a = real i" "i \<le> 255" "num b = real j" "j \<le> 255"
    using num_nat [of a] num_nat [of b] by blast
  have "\<bar>int i - int j\<bar> \<le> 2 ^ 53"
    using n(2,4) by simp
  then have "fl (real_of_int (int i - int j)) = real_of_int (int i - int j)"
    by (rule fl_of_int)
  then show ?thesis
    unfolding fsub_def n by simp
qed

lemma fl_num: "fl (num a) = num a"
proof -
  obtain i where n: "num a = real i" "i \<le> 255"
    using num_nat [of a] by blast
  have "i \<le> 2 ^ 53"
    using n(2) by simp
  then show ?thesis
    unfolding n by (rule fl_of_nat)
qed

lemma subtractPixel_eq:
  "subtractPixel (fmul thr (fl 2.55)) bg i d =
     d[i + 3 := (if i + 3 < length bg
                 then matteAlpha thr (d ! i, d ! (i + 1), d ! (i + 2), d ! (i + 3))
                        (bg ! i, bg ! (i + 1), bg ! (i + 2), bg ! (i + 3))
                 else d ! (i + 3))]"
proof (cases "i + 3 < length d")
  case False
  then have "subtractPixel (fmul thr (fl 2.55)) bg i d = d"
    unfolding subtractPixel_def by (simp only: simp_thms if_False)
  moreover have "d[i + 3 := v] = d" for v
    using False by (simp add: list_update_beyond)
  ultimately show ?thesis
    by (simp only:)
next
  case True
  show ?thesis
  proof (cases "i + 3 < length bg")
    case False
    then show ?thesis
      unfolding subtractPixel_def by (simp only: simp_thms if_False list_update_id)
  next
    case T: True
    show ?thesis
      unfolding subtractPixel_def matteAlpha_def maxDiffOf_def effectiveThresholdOf_def
        fadeoutOf_def Let_def prod.case fsub_bytes
      using True T
      by (simp only: simp_thms if_True if_distrib [of "list_update d (i + 3)"] list_update_id)
  qed
qed

lemma subtractPixel_step:
  "subtractPixel (fmul t (fl 2.55)) bg i d =
     d[i + 3 := subtractAlpha t bg i (d ! i) (d ! (i + 1)) (d ! (i + 2)) (d ! (i + 3))]"
  unfolding subtractAlpha_def by (rule subtractPixel_eq)

lemma data_subtractBackground:
  "data (subtractBackground img bg t) =
     fold (subtractPixel (fmul t (fl 2.55)) (data bg))
       (map (\<lambda>k. 4 * k) [0..<(length (data img) + 3) div 4]) (data img)"
  by (simp add: subtractBackground_def stride4_def)

lemma subtractBackground_length:
  "length (data (subtractBackground img bg t)) = length (data img)"
  unfolding data_subtractBackground
  by (rule fold_own_pixel_length [where h = "subtractAlpha t (data bg)"]) (rule subtractPixel_step)

lemma subtractBackground_width:
  "width (subtractBackground img bg t) = width img" "height (subtractBackground img bg t) = height img"
  unfolding subtractBackground_def Let_def by simp_all

lemma subtractBackground_alpha:
  assumes "4 * k + 3 < length (data img)"
  shows "alphaOf (data (subtractBackground img bg t)) k =
           (if 4 * k + 3 < length (data bg)
            then matteAlpha t (pixel (data img) k) (pixel (data bg) k)
            else alphaOf (data img) k)"
proof -
  have mem: "k \<in> set [0..<(length (data img) + 3) div 4]"
    using assms by auto
  have "data (subtractBackground img bg t) ! (4 * k + 3) =
          subtractAlpha t (data bg) (4 * k) (data img ! (4 * k)) (data img ! (4 * k + 1))
            (data img ! (4 * k + 2)) (data img ! (4 * k + 3))"
    unfolding data_subtractBackground
    by (rule fold_own_pixel_alpha [where h = "subtractAlpha t (data bg)"])
       (rule subtractPixel_step distinct_upt mem assms)+
  then show ?thesis
    by (simp add: subtractAlpha_def alphaOf_def pixel_def)
qed

lemma subtractBackground_other:
  assumes "j mod 4 \<noteq> 3"
  shows "data (subtractBackground img bg t) ! j = data img ! j"
proof -
  have "\<forall>k \<in> set [0..<(length (data img) + 3) div 4]. j \<noteq> 4 * k + 3"
    using assms by auto
  then show ?thesis
    unfolding data_subtractBackground
    by (rule fold_own_pixel_other [where h = "subtractAlpha t (data bg)", OF subtractPixel_step])
qed

lemma subtractBackground_pixel:
  assumes "4 * k + 3 < length (data img)"
  shows "pixel (data (subtractBackground img bg t)) k =
           (data img ! (4 * k), data img ! (4 * k + 1), data img ! (4 * k + 2),
            if 4 * k + 3 < length (data bg)
            then matteAlpha t (pixel (data img) k) (pixel (data bg) k)
            else alphaOf (data img) k)"
proof -
  have m: "(4 * k) mod 4 \<noteq> 3" "(4 * k + 1) mod 4 \<noteq> 3" "(4 * k + 2) mod 4 \<noteq> 3"
    by presburger+
  have "data (subtractBackground img bg t) ! (4 * k) = data img ! (4 * k)"
    "data (subtractBackground img bg t) ! (4 * k + 1) = data img ! (4 * k + 1)"
    "data (subtractBackground img bg t) ! (4 * k + 2) = data img ! (4 * k + 2)"
    by (rule subtractBackground_other, rule m)+
  then show ?thesis
    using subtractBackground_alpha [OF assms, of bg t]
    unfolding pixel_def [of "data (subtractBackground img bg t)"] alphaOf_def [of "data (subtractBackground img bg t)"]
    by (simp only:)
qed



lemma toUint8Clamp_round_zero_iff:
  "toUint8Clamp (Math_round x) = 0 \<longleftrightarrow> Math_round x \<le> 0"
proof (cases "Math_round x \<le> 0")
  case True
  then show ?thesis
    by (simp add: toUint8Clamp_zero)
next
  case False
  define n where "n = \<lfloor>x + 1/2\<rfloor>"
  have mr: "Math_round x = real_of_int n"
    by (simp add: Math_round_def n_def)
  have pos: "0 < n"
    using False mr by simp
  have "toUint8Clamp (real_of_int n) \<noteq> 0"
  proof (cases "n \<le> 255")
    case True
    then have "num (toUint8Clamp (real_of_int n)) = real_of_int n"
      using pos by (intro num_toUint8Clamp_int) simp_all
    then have "num (toUint8Clamp (real_of_int n)) \<noteq> 0"
      using pos by simp
    then show ?thesis
      by (simp add: num_eq_0_iff)
  next
    case F: False
    then have "255 \<le> real_of_int n" "\<not> real_of_int n \<le> 0"
      by simp_all
    then show ?thesis
      by (simp add: toUint8Clamp_def)
  qed
  then show ?thesis
    using False mr by simp
qed

lemma toUint8Clamp_round_zero_mono:
  assumes "toUint8Clamp (Math_round x) = 0" "y \<le> x"
  shows "toUint8Clamp (Math_round y) = 0"
  using assms Math_round_mono [of y x] unfolding toUint8Clamp_round_zero_iff by linarith

lemma maxDiffOf_nonneg: "0 \<le> maxDiffOf p q"
  by (cases p, cases q) (simp add: maxDiffOf_def max_def)

text \<open>The largest channel difference is an integer between 0 and 255.\<close>

lemma abs_diff_bytes: "\<exists>n. \<bar>num a - num b\<bar> = real n \<and> n \<le> 255"
proof -
  obtain i j where n: "num a = real i" "i \<le> 255" "num b = real j" "j \<le> 255"
    using num_nat [of a] num_nat [of b] by blast
  show ?thesis
  proof (cases "j \<le> i")
    case True
    then have "\<bar>real i - real j\<bar> = real (i - j)"
      by (simp add: of_nat_diff)
    then show ?thesis
      unfolding n using n(2) by (intro exI [of _ "i - j"]) simp
  next
    case False
    then have "\<bar>real i - real j\<bar> = real (j - i)"
      by (simp add: of_nat_diff)
    then show ?thesis
      unfolding n using n(4) by (intro exI [of _ "j - i"]) simp
  qed
qed

lemma maxDiffOf_nat: "\<exists>n. maxDiffOf p q = real n \<and> n \<le> 255"
proof -
  obtain r g b a where p: "p = (r, g, b, a)"
    by (cases p) auto
  obtain r' g' b' a' where q: "q = (r', g', b', a')"
    by (cases q) auto
  obtain i j k where n: "\<bar>num r - num r'\<bar> = real i" "i \<le> 255"
      "\<bar>num g - num g'\<bar> = real j" "j \<le> 255" "\<bar>num b - num b'\<bar> = real k" "k \<le> 255"
    using abs_diff_bytes [of r r'] abs_diff_bytes [of g g'] abs_diff_bytes [of b b'] by auto
  have "maxDiffOf p q = real (max (max i j) k)"
    unfolding p q maxDiffOf_def prod.case n by (simp add: max_def)
  moreover have "max (max i j) k \<le> 255"
    using n by simp
  ultimately show ?thesis
    by blast
qed

lemma effectiveThresholdOf_mono:
  assumes "t1 \<le> t2"
  shows "effectiveThresholdOf t1 a \<le> effectiveThresholdOf t2 a"
proof -
  have c: "0 \<le> fl 2.55"
    by (rule fl_nonneg) simp
  have f: "0 \<le> fdiv (num a) 255"
    unfolding fdiv_def using num_nonneg [of a] by (intro fl_nonneg) simp
  have "t1 * fl 2.55 \<le> t2 * fl 2.55"
    using assms c by (rule mult_right_mono)
  then have "fmul t1 (fl 2.55) \<le> fmul t2 (fl 2.55)"
    unfolding fmul_def by (rule fl_mono)
  then have "fmul t1 (fl 2.55) * fdiv (num a) 255 \<le> fmul t2 (fl 2.55) * fdiv (num a) 255"
    using f by (rule mult_right_mono)
  then show ?thesis
    unfolding effectiveThresholdOf_def fmul_def [of _ "fdiv (num a) 255"] by (rule fl_mono)
qed

lemma matteAlpha_cases:
  "matteAlpha t (r, g, b, a) (r', g', b', a') =
     (if num a' > 0 then
        if maxDiffOf (r, g, b, a) (r', g', b', a') < effectiveThresholdOf t a' then 0
        else if maxDiffOf (r, g, b, a) (r', g', b', a') < fmul (effectiveThresholdOf t a') 1.5 then
          toUint8Clamp (Math_round (fmul (num a)
            (fadeoutOf (maxDiffOf (r, g, b, a) (r', g', b', a')) (effectiveThresholdOf t a'))))
        else a
      else a)"
  unfolding matteAlpha_def by (simp only: prod.case)

text \<open>
  In the transition zone, \<open>e \<le> m < e * 1.5\<close> with the product rounded, the threshold
  \<open>e\<close> is at least \<open>2 / 3\<close>, the divisor \<open>e * 0.5\<close> is positive, and the fade factor lies
  between 0 and 1.
\<close>

lemma fade_zone:
  assumes "e \<le> real n" "real n < fmul e 1.5" "n \<le> 255"
  shows "2 / 3 \<le> e" "real n \<le> e * 1.5" "1 / 4 \<le> fmul e 0.5"
proof -
  have "fl 0 < fl (e * 1.5)"
    using assms(2) by (simp add: fl_0 fmul_def)
  then have "0 < e * 1.5"
    by (rule fl_less_imp_less)
  then have e: "0 < e"
    by simp
  then have "0 < real n"
    using assms(1) by simp
  then have n: "1 \<le> n"
    by simp
  have "n \<le> 2 ^ 53"
    using assms(3) by simp
  then have fn: "fl (real n) = real n"
    by (rule fl_of_nat)
  have "fl (real n) < fl (e * 1.5)"
    using assms(2) unfolding fn fmul_def .
  then have "real n < e * 1.5"
    by (rule fl_less_imp_less)
  then show le: "real n \<le> e * 1.5"
    by simp
  have "1 \<le> real n"
    using n by simp
  then show e23: "2 / 3 \<le> e"
    using le by simp
  then have "1 / 4 \<le> e * 0.5"
    by simp
  then have "fl (1 / 4) \<le> fl (e * 0.5)"
    by (rule fl_mono)
  then show "1 / 4 \<le> fmul e 0.5"
    by (simp add: fl_quarter fmul_def)
qed



text \<open>A larger threshold gives a smaller fade factor.\<close>

lemma fadeout_antimono:
  assumes "e1 \<le> real n" "real n < fmul e1 1.5" "e1 \<le> e2" "e2 \<le> real n" "n \<le> 255"
  shows "fadeoutOf (real n) e2 \<le> fadeoutOf (real n) e1"
proof -
  have d1: "1 / 4 \<le> fmul e1 0.5"
    using assms(1,2,5) by (rule fade_zone(3))
  have "e1 * 0.5 \<le> e2 * 0.5"
    using assms(3) by simp
  then have d12: "fmul e1 0.5 \<le> fmul e2 0.5"
    unfolding fmul_def by (rule fl_mono)
  have "fl 0 \<le> fl (real n - e2)"
    using assms(4) by (intro fl_mono) simp
  then have n0: "0 \<le> fsub (real n) e2"
    by (simp add: fl_0 fsub_def)
  have "real n - e2 \<le> real n - e1"
    using assms(3) by simp
  then have n12: "fsub (real n) e2 \<le> fsub (real n) e1"
    unfolding fsub_def by (rule fl_mono)
  have "fsub (real n) e2 / fmul e2 0.5 \<le> fsub (real n) e2 / fmul e1 0.5"
    using n0 d1 d12 by (intro divide_left_mono) simp_all
  also have "\<dots> \<le> fsub (real n) e1 / fmul e1 0.5"
    using n12 d1 by (intro divide_right_mono) simp_all
  finally show ?thesis
    unfolding fadeoutOf_def fdiv_def by (rule fl_mono)
qed

lemma matteAlpha_zero_mono:
  assumes "t1 \<le> t2" "matteAlpha t1 p q = 0"
  shows "matteAlpha t2 p q = 0"
proof -
  obtain r g b a where p: "p = (r, g, b, a)"
    by (cases p) auto
  obtain r' g' b' a' where q: "q = (r', g', b', a')"
    by (cases q) auto
  obtain n where m: "maxDiffOf p q = real n" and n255: "n \<le> 255"
    using maxDiffOf_nat [of p q] by blast
  define e1 where "e1 = effectiveThresholdOf t1 a'"
  define e2 where "e2 = effectiveThresholdOf t2 a'"
  have e12: "e1 \<le> e2"
    unfolding e1_def e2_def using assms(1) by (rule effectiveThresholdOf_mono)
  have M1: "matteAlpha t1 p q =
      (if num a' > 0 then if real n < e1 then 0
        else if real n < fmul e1 1.5
          then toUint8Clamp (Math_round (fmul (num a) (fadeoutOf (real n) e1)))
        else a else a)"
    unfolding p q e1_def m [unfolded p q, symmetric] by (rule matteAlpha_cases)
  have M2: "matteAlpha t2 p q =
      (if num a' > 0 then if real n < e2 then 0
        else if real n < fmul e2 1.5
          then toUint8Clamp (Math_round (fmul (num a) (fadeoutOf (real n) e2)))
        else a else a)"
    unfolding p q e2_def m [unfolded p q, symmetric] by (rule matteAlpha_cases)
  have zero_fade: "toUint8Clamp (Math_round (fmul (num 0) f)) = 0" for f
    by (simp add: num_0 fmul_def fl_0 Math_round_def toUint8Clamp_def)
  show ?thesis
  proof (cases "num a' > 0")
    case False
    then show ?thesis
      using assms(2) unfolding M1 M2 by simp
  next
    case pos: True
    show ?thesis
    proof (cases "real n < e2")
      case True
      then show ?thesis
        unfolding M2 using pos by simp
    next
      case ge2: False
      then have ge1: "\<not> real n < e1"
        using e12 by simp
      show ?thesis
      proof (cases "real n < fmul e1 1.5")
        case True
        then have z: "toUint8Clamp (Math_round (fmul (num a) (fadeoutOf (real n) e1))) = 0"
          using assms(2) pos ge1 unfolding M1 by simp
        have "fadeoutOf (real n) e2 \<le> fadeoutOf (real n) e1"
          using ge1 True e12 ge2 n255 by (intro fadeout_antimono) simp_all
        then have "num a * fadeoutOf (real n) e2 \<le> num a * fadeoutOf (real n) e1"
          using num_nonneg [of a] by (rule mult_left_mono)
        then have "fmul (num a) (fadeoutOf (real n) e2) \<le> fmul (num a) (fadeoutOf (real n) e1)"
          unfolding fmul_def by (rule fl_mono)
        with z have z2: "toUint8Clamp (Math_round (fmul (num a) (fadeoutOf (real n) e2))) = 0"
          by (rule toUint8Clamp_round_zero_mono)
        have "e1 * 1.5 \<le> e2 * 1.5"
          using e12 by simp
        then have "fmul e1 1.5 \<le> fmul e2 1.5"
          unfolding fmul_def by (rule fl_mono)
        then have "real n < fmul e2 1.5"
          using True by simp
        then show ?thesis
          unfolding M2 using pos ge2 z2 by simp
      next
        case False
        then have "a = 0"
          using assms(2) pos ge1 unfolding M1 by simp
        then show ?thesis
          unfolding M2 by (simp only: zero_fade if_cancel)
      qed
    qed
  qed
qed

section \<open>Reference-mode matting, pixel by pixel\<close>


lemma effectiveThresholdOf_20: "effectiveThresholdOf 20 255 = 51"
  by (simp add: effectiveThresholdOf_def num_def fl_compute)


lemma faded_60: "Math_round (fmul 255 (fadeoutOf 60 51)) = 90"
  by (simp add: fadeoutOf_def Math_round_def fl_compute)



text \<open>At threshold 20 the pixel (60, 0, 0, 255) over opaque black is in the transition zone
  as well, with the effective threshold 51, and its alpha becomes 90.\<close>

lemma reference_matting_alpha_60:
  "num (alphaOf (data (subtractBackground img1 ref1 20)) 0) = 90"
proof -
  have in_img: "4 * 0 + 3 < length (data img1)" and in_ref: "4 * 0 + 3 < length (data ref1)"
    by (simp_all add: img1_def ref1_def)
  have p: "pixel (data img1) 0 = (60, 0, 0, 255)" "pixel (data ref1) 0 = (0, 0, 0, 255)"
    by (simp_all add: img1_def ref1_def pixel_def)
  have m: "maxDiffOf (60, 0, 0, 255) (0, 0, 0, 255) = 60"
    by (simp add: maxDiffOf_def num_def)
  have n: "num (255 :: byte) = 255"
    by (simp add: num_def)
  have f: "fmul 51 1.5 = 153 / 2"
    by (simp add: fl_compute)
  have "alphaOf (data (subtractBackground img1 ref1 20)) 0 = toUint8Clamp 90"
    unfolding subtractBackground_alpha [OF in_img] p matteAlpha_cases m effectiveThresholdOf_20
      n f faded_60
    using in_ref by simp
  then show ?thesis
    using num_toUint8Clamp_int [of 90] by simp
qed

section \<open>Reference pixels with alpha 0\<close>

lemma effectiveThresholdOf_30: "effectiveThresholdOf 30 255 = 153 / 2"
  by (simp add: effectiveThresholdOf_def num_def fl_compute)

text \<open>
  Claim C6, as stated, fails. The loop of \<open>subtractBackground\<close> pairs the two buffers by
  flat index, and the flat index of a position depends on the width of the buffer. For a
  1\<times>2 image and a 2\<times>2 reference, the reference pixel at position \<open>(0, 1)\<close> has alpha 0,
  but the image pixel at \<open>(0, 1)\<close> has flat index 1 and is compared with the reference
  pixel of flat index 1, the opaque pixel at \<open>(1, 0)\<close>, whose colour it has: its alpha
  becomes 0.
\<close>

theorem reference_alpha_zero_counterexample:
  "wf_ImageData imgColumn \<and> wf_ImageData refSquare \<and>
   0 < width imgColumn \<and> 1 < height imgColumn \<and> 0 < width refSquare \<and> 1 < height refSquare \<and>
   alphaOf (data refSquare) (pixelIndex refSquare 0 1) = 0 \<and>
   pixel (data imgColumn) (pixelIndex imgColumn 0 1) = (10, 10, 10, 255) \<and>
   pixel (data (subtractBackground imgColumn refSquare 30)) (pixelIndex imgColumn 0 1) =
     (10, 10, 10, 0)"
proof -
  have in_img: "4 * 1 + 3 < length (data imgColumn)"
    and in_ref: "4 * 1 + 3 < length (data refSquare)"
    by (simp_all add: imgColumn_def refSquare_def)
  have p: "pixel (data imgColumn) 1 = (10, 10, 10, 255)"
    "pixel (data refSquare) 1 = (10, 10, 10, 255)"
    by (simp_all add: imgColumn_def refSquare_def pixel_def)
  have d: "data imgColumn ! (4 * 1) = 10" "data imgColumn ! (4 * 1 + 1) = 10"
    "data imgColumn ! (4 * 1 + 2) = 10"
    by (simp_all add: imgColumn_def)
  have m: "maxDiffOf (10, 10, 10, 255) (10, 10, 10, 255) = 0"
    by (simp add: maxDiffOf_def)
  have "pixel (data (subtractBackground imgColumn refSquare 30)) 1 = (10, 10, 10, 0)"
    unfolding subtractBackground_pixel [OF in_img] p matteAlpha_cases m effectiveThresholdOf_30 d
    using in_ref by (simp add: num_def)
  moreover have "pixelIndex imgColumn 0 1 = 1"
    by (simp add: pixelIndex_def imgColumn_def)
  moreover have "alphaOf (data refSquare) (pixelIndex refSquare 0 1) = 0"
    by (simp add: alphaOf_def pixelIndex_def refSquare_def)
  ultimately show ?thesis
    using p by (simp add: wf_ImageData_def imgColumn_def refSquare_def)
qed

text \<open>
  Claim C6, amended. \<open>subtractBackground\<close> pairs the pixels of the two buffers by their flat
  row-major index. For every flat index present in both buffers at which the reference pixel
  has alpha 0, the image pixel of that flat index is left untouched: R, G, B and A are what
  they were, whatever the colours. When image and reference have the same width, the pixel at
  a position \<open>(x, y)\<close> has the same flat index in both, and this holds for every position at
  which the reference pixel has alpha 0.
\<close>

theorem reference_alpha_zero_untouched:
  assumes "wf_ImageData img" "wf_ImageData ref"
  shows "(\<forall>k. k < width img * height img \<and> k < width ref * height ref \<and>
              alphaOf (data ref) k = 0 \<longrightarrow>
            pixel (data (subtractBackground img ref thr)) k = pixel (data img) k) \<and>
         (width ref = width img \<longrightarrow>
            (\<forall>x y. x < width img \<and> y < height img \<and> y < height ref \<and>
                   alphaOf (data ref) (pixelIndex ref x y) = 0 \<longrightarrow>
               pixel (data (subtractBackground img ref thr)) (pixelIndex img x y) =
                 pixel (data img) (pixelIndex img x y)))"
proof -
  have flat: "pixel (data (subtractBackground img ref thr)) k = pixel (data img) k"
    if k: "k < width img * height img" and z: "alphaOf (data ref) k = 0" for k
  proof -
    have in_img: "4 * k + 3 < length (data img)"
      using k assms(1) by (simp add: wf_pixel_in_range)
    have "matteAlpha thr (pixel (data img) k) (pixel (data ref) k) = alphaOf (data img) k"
    proof -
      obtain r g b a where p: "pixel (data img) k = (r, g, b, a)"
        by (cases "pixel (data img) k") auto
      obtain r' g' b' a' where q: "pixel (data ref) k = (r', g', b', a')"
        by (cases "pixel (data ref) k") auto
      have "a' = 0"
        using q z by (simp add: pixel_def alphaOf_def)
      moreover have "alphaOf (data img) k = a"
        using p by (simp add: pixel_def alphaOf_def)
      ultimately show ?thesis
        unfolding p q matteAlpha_cases by (simp add: num_0)
    qed
    then show ?thesis
      unfolding subtractBackground_pixel [OF in_img]
      by (simp add: pixel_def alphaOf_def)
  qed
  have pos: "pixel (data (subtractBackground img ref thr)) (pixelIndex img x y) =
                 pixel (data img) (pixelIndex img x y)"
    if w: "width ref = width img" and x: "x < width img" and y: "y < height img"
      and z: "alphaOf (data ref) (pixelIndex ref x y) = 0" for x y
  proof -
    have "pixelIndex ref x y = pixelIndex img x y"
      using w by (simp add: pixelIndex_def)
    moreover have "pixelIndex img x y < width img * height img"
      unfolding pixelIndex_def using x y by (simp add: row_major_bound)
    ultimately show ?thesis
      using z by (intro flat) simp_all
  qed
  show ?thesis
    using flat pos by blast
qed

text \<open>The theorem at the second pixel of a 2\<times>1 image whose colour equals the
  reference's colour there: the pixel keeps its alpha 200.\<close>

theorem reference_alpha_zero_untouched_witness:
  "wf_ImageData img6 \<and> wf_ImageData ref6 \<and> width ref6 = width img6 \<and>
   1 < width img6 \<and> 0 < height img6 \<and> 0 < height ref6 \<and>
   alphaOf (data ref6) (pixelIndex ref6 1 0) = 0 \<and>
   pixel (data (subtractBackground img6 ref6 30)) (pixelIndex img6 1 0) = (7, 8, 9, 200)"
proof -
  have wf: "wf_ImageData img6" "wf_ImageData ref6"
    by (simp_all add: wf_ImageData_def img6_def ref6_def)
  have h: "width ref6 = width img6" "1 < width img6" "0 < height img6" "0 < height ref6"
    "alphaOf (data ref6) (pixelIndex ref6 1 0) = 0"
    by (simp_all add: img6_def ref6_def alphaOf_def pixelIndex_def)
  have p: "pixel (data img6) (pixelIndex img6 1 0) = (7, 8, 9, 200)"
    by (simp add: img6_def pixel_def pixelIndex_def)
  have "pixel (data (subtractBackground img6 ref6 30)) (pixelIndex img6 1 0) =
          pixel (data img6) (pixelIndex img6 1 0)"
    using reference_alpha_zero_untouched [OF wf, of 30] h by blast
  then show ?thesis
    using wf h p by simp
qed

section \<open>Monotonicity in the threshold\<close>

text \<open>
  Claim C4. For a fixed image and reference, and thresholds \<open>t1 \<le> t2\<close>, the number of pixels
  with alpha 0 after \<open>subtractBackground\<close> with \<open>t1\<close> is at most that number with \<open>t2\<close>.
  Every operation of the loop body is rounded to a double, and rounding is monotone; the
  statement holds for all thresholds, so in particular for those in the range 1..100.
\<close>

theorem threshold_monotone_transparent_count:
  assumes "t1 \<le> t2"
  shows "transparentCount (data (subtractBackground img ref t1)) \<le>
           transparentCount (data (subtractBackground img ref t2))"
proof -
  have "alphaOf (data (subtractBackground img ref t2)) k = 0"
    if k: "k \<in> set [0..<length (data img) div 4]"
      and z: "alphaOf (data (subtractBackground img ref t1)) k = 0" for k
  proof -
    have in_img: "4 * k + 3 < length (data img)"
      using k by (simp add: pixel_in_range)
    show ?thesis
    proof (cases "4 * k + 3 < length (data ref)")
      case True
      then have "matteAlpha t1 (pixel (data img) k) (pixel (data ref) k) = 0"
        using z subtractBackground_alpha [OF in_img, of ref t1] by simp
      with assms have "matteAlpha t2 (pixel (data img) k) (pixel (data ref) k) = 0"
        by (rule matteAlpha_zero_mono)
      then show ?thesis
        using True subtractBackground_alpha [OF in_img, of ref t2] by simp
    next
      case False
      then show ?thesis
        using z subtractBackground_alpha [OF in_img, of ref t1]
          subtractBackground_alpha [OF in_img, of ref t2] by simp
    qed
  qed
  then show ?thesis
    unfolding transparentCount_def subtractBackground_length
    by (rule length_filter_mono)
qed

text \<open>The theorem at the thresholds 20 and 30; there the two counts are 0 and 1.\<close>

theorem threshold_monotone_transparent_count_witness:
  "(20::real) \<le> 30 \<and>
   transparentCount (data (subtractBackground img1 ref1 20)) \<le>
     transparentCount (data (subtractBackground img1 ref1 30))"
proof -
  have h: "(20::real) \<le> 30"
    by simp
  show ?thesis
    by (rule conjI [OF h threshold_monotone_transparent_count [OF h]])
qed

lemma transparentCount_example:
  "transparentCount (data (subtractBackground img1 ref1 20)) = 0"
  "transparentCount (data (subtractBackground img1 ref1 30)) = 1"
proof -
  have len: "length (data (subtractBackground img1 ref1 t)) = 4" for t
    by (simp add: subtractBackground_length img1_def)
  have in_img: "4 * 0 + 3 < length (data img1)" and in_ref: "4 * 0 + 3 < length (data ref1)"
    by (simp_all add: img1_def ref1_def)
  have p: "pixel (data img1) 0 = (60, 0, 0, 255)" "pixel (data ref1) 0 = (0, 0, 0, 255)"
    by (simp_all add: img1_def ref1_def pixel_def)
  have m: "maxDiffOf (60, 0, 0, 255) (0, 0, 0, 255) = 60"
    by (simp add: maxDiffOf_def num_def)
  have n: "num (255 :: byte) = 255"
    by (simp add: num_def)
  have f: "fmul 51 1.5 = 153 / 2"
    by (simp add: fl_compute)
  have "alphaOf (data (subtractBackground img1 ref1 20)) 0 = toUint8Clamp 90"
    unfolding subtractBackground_alpha [OF in_img] p matteAlpha_cases m effectiveThresholdOf_20
      n f faded_60
    using in_ref by simp
  then have a20: "alphaOf (data (subtractBackground img1 ref1 20)) 0 = 90"
    by (simp add: toUint8Clamp_def)
  have a30: "alphaOf (data (subtractBackground img1 ref1 30)) 0 = 0"
    unfolding subtractBackground_alpha [OF in_img] p matteAlpha_cases m effectiveThresholdOf_30 n
    using in_ref by simp
  show "transparentCount (data (subtractBackground img1 ref1 20)) = 0"
    "transparentCount (data (subtractBackground img1 ref1 30)) = 1"
    unfolding transparentCount_def len by (simp_all add: a20 a30)
qed

section \<open>Image and reference of different dimensions\<close>

text \<open>
  Claim C3, as stated, fails. The loop of \<open>subtractBackground\<close> pairs the two buffers by
  flat index, not by position. For a 1\<times>2 image and a 2\<times>1 reference the only position
  present in both is \<open>(0, 0)\<close>; yet the image pixel at \<open>(0, 1)\<close> is compared with the
  reference pixel at \<open>(1, 0)\<close>, which has the same flat index 1, and loses its alpha.
\<close>

theorem overlap_region_counterexample:
  "0 < width img3 \<and> 1 < height img3 \<and> \<not> (0 < width ref3 \<and> 1 < height ref3) \<and>
   pixel (data img3) (pixelIndex img3 0 1) = (10, 10, 10, 255) \<and>
   pixel (data (subtractBackground img3 ref3 30)) (pixelIndex img3 0 1) = (10, 10, 10, 0)"
proof -
  have in_img: "4 * 1 + 3 < length (data img3)" and in_ref: "4 * 1 + 3 < length (data ref3)"
    by (simp_all add: img3_def ref3_def)
  have p: "pixel (data img3) 1 = (10, 10, 10, 255)" "pixel (data ref3) 1 = (10, 10, 10, 255)"
    by (simp_all add: img3_def ref3_def pixel_def)
  have d: "data img3 ! (4 * 1) = 10" "data img3 ! (4 * 1 + 1) = 10" "data img3 ! (4 * 1 + 2) = 10"
    by (simp_all add: img3_def)
  have m: "maxDiffOf (10, 10, 10, 255) (10, 10, 10, 255) = 0"
    by (simp add: maxDiffOf_def)
  have "pixel (data (subtractBackground img3 ref3 30)) 1 = (10, 10, 10, 0)"
    unfolding subtractBackground_pixel [OF in_img] p matteAlpha_cases m effectiveThresholdOf_30 d
    using in_ref by (simp add: num_def)
  moreover have "pixelIndex img3 0 1 = 1"
    by (simp add: pixelIndex_def img3_def)
  ultimately show ?thesis
    using p by (simp add: img3_def ref3_def)
qed

text \<open>
  Claim C3, amended. \<open>subtractBackground\<close> pairs the image pixel of flat row-major index
  \<open>k\<close> with the reference pixel of the same flat index: the image pixel is eligible for
  modification exactly when \<open>k\<close> is below the reference's pixel count, its R, G, B are kept
  and its alpha is the one computed from those two pixels; image pixels at or beyond the
  reference's pixel count are unchanged. When the two widths are equal, this is the
  overlapping region: the pixel at \<open>(x, y)\<close> is compared with the reference pixel at
  \<open>(x, y)\<close> when row \<open>y\<close> exists in the reference, and is unchanged otherwise.
\<close>

theorem reference_matting_flat_index:
  assumes "wf_ImageData img" "wf_ImageData ref" "k < width img * height img"
  shows "pixel (data (subtractBackground img ref thr)) k =
           (if k < width ref * height ref
            then withAlpha (pixel (data img) k)
                   (matteAlpha thr (pixel (data img) k) (pixel (data ref) k))
            else pixel (data img) k) \<and>
         (width ref = width img \<longrightarrow>
            (\<forall>x y. pixelIndex img x y = k \<and> x < width img \<longrightarrow>
               pixel (data (subtractBackground img ref thr)) k =
                 (if y < height ref
                  then withAlpha (pixel (data img) k)
                         (matteAlpha thr (pixel (data img) k)
                            (pixel (data ref) (pixelIndex ref x y)))
                  else pixel (data img) k)))"
proof -
  have in_img: "4 * k + 3 < length (data img)"
    using assms(1,3) by (simp add: wf_pixel_in_range)
  have in_ref: "4 * k + 3 < length (data ref) \<longleftrightarrow> k < width ref * height ref"
    using assms(2) by (simp add: wf_pixel_in_range)
  have flat: "pixel (data (subtractBackground img ref thr)) k =
           (if k < width ref * height ref
            then withAlpha (pixel (data img) k)
                   (matteAlpha thr (pixel (data img) k) (pixel (data ref) k))
            else pixel (data img) k)"
    unfolding subtractBackground_pixel [OF in_img] in_ref
    by (simp add: withAlpha_def pixel_def alphaOf_def)
  have "pixel (data (subtractBackground img ref thr)) k =
                 (if y < height ref
                  then withAlpha (pixel (data img) k)
                         (matteAlpha thr (pixel (data img) k)
                            (pixel (data ref) (pixelIndex ref x y)))
                  else pixel (data img) k)"
    if w: "width ref = width img" and k: "pixelIndex img x y = k" and x: "x < width img" for x y
  proof -
    have "pixelIndex ref x y = k"
      using w k by (simp add: pixelIndex_def)
    moreover have "k < width ref * height ref \<longleftrightarrow> y < height ref"
      using row_major_bound [of x "width ref" y "height ref"] x w k
      by (simp add: pixelIndex_def)
    ultimately show ?thesis
      using flat by simp
  qed
  with flat show ?thesis
    by blast
qed

text \<open>The amended statement at pixel 1 of the 1\<times>2 image above.\<close>

theorem reference_matting_flat_index_witness:
  "wf_ImageData img3 \<and> wf_ImageData ref3 \<and> 1 < width img3 * height img3 \<and>
   1 < width ref3 * height ref3 \<and>
   pixel (data (subtractBackground img3 ref3 30)) 1 =
     withAlpha (pixel (data img3) 1) (matteAlpha 30 (pixel (data img3) 1) (pixel (data ref3) 1))"
proof -
  have h: "wf_ImageData img3" "wf_ImageData ref3" "1 < width img3 * height img3"
    by (simp_all add: wf_ImageData_def img3_def ref3_def)
  have r: "1 < width ref3 * height ref3"
    by (simp add: ref3_def)
  show ?thesis
    using h r reference_matting_flat_index [OF h, of 30] by simp
qed

section \<open>Colour-key matting is binary\<close>

lemma removeByColorPixel_step:
  assumes "0 < thr"
  shows "removeByColorPixel targetColor thr i d =
     d[i + 3 := colorKeyAlpha targetColor thr i (d ! i) (d ! (i + 1)) (d ! (i + 2)) (d ! (i + 3))]"
proof (cases "i + 3 < length d")
  case False
  then have "removeByColorPixel targetColor thr i d = d"
    unfolding removeByColorPixel_def by (simp only: if_False)
  moreover have "d[i + 3 := v] = d" for v
    using False by (simp add: list_update_beyond)
  ultimately show ?thesis
    by (simp only:)
next
  case True
  define t where "t = totalDiffOf (d ! i, d ! (i + 1), d ! (i + 2), d ! (i + 3)) targetColor"
  have rb: "removeByColorPixel targetColor thr i d =
      (if t < thr then d[i + 3 := 0]
       else d[i + 3 := toUint8Clamp (min (num (d ! (i + 3))) (min 255 ((t / thr) * 255)))])"
    unfolding removeByColorPixel_def t_def totalDiffOf_def Let_def prod.case
    using True assms by (simp only: if_True less_irrefl [of thr] refl if_False
        less_imp_neq [OF assms, symmetric] )
  have keep: "toUint8Clamp (min (num (d ! (i + 3))) (min 255 ((t / thr) * 255))) = d ! (i + 3)"
    if "\<not> t < thr"
  proof -
    have "1 \<le> t / thr"
      using that assms by simp
    then have "1 * 255 \<le> (t / thr) * 255"
      by (rule mult_right_mono) simp
    then have "255 \<le> (t / thr) * 255"
      by (simp only: mult_1)
    then have "min 255 ((t / thr) * 255) = 255"
      by (rule min_absorb1)
    then have "min (num (d ! (i + 3))) (min 255 ((t / thr) * 255)) = num (d ! (i + 3))"
      using num_le_255 [of "d ! (i + 3)"] by simp
    then show ?thesis
      by (simp only: toUint8Clamp_num)
  qed
  show ?thesis
    unfolding rb colorKeyAlpha_def t_def [symmetric]
    using keep by (simp add: list_update_id)
qed

lemma data_removeByColor:
  "data (removeByColor img c t) =
     fold (removeByColorPixel c t)
       (map (\<lambda>k. 4 * k) [0..<(length (data img) + 3) div 4]) (data img)"
  by (simp add: removeByColor_def stride4_def)

lemma removeByColor_length:
  assumes "0 < t"
  shows "length (data (removeByColor img c t)) = length (data img)"
  unfolding data_removeByColor
  by (rule fold_own_pixel_length [where h = "colorKeyAlpha c t"]) (rule removeByColorPixel_step [OF assms])

text \<open>
  Claim C10. With \<open>threshold > 0\<close>, \<open>removeByColor\<close> sets the alpha of a pixel to 0 when
  the mean absolute channel difference from the target colour is below the threshold, and
  otherwise leaves the pixel completely unchanged: for \<open>totalDiff \<ge> threshold\<close> the
  replacement alpha \<open>min(255, (totalDiff / threshold) * 255)\<close> is 255, and the minimum with
  the existing alpha is the existing alpha. No partial fade occurs.
\<close>

theorem color_key_binary:
  assumes "0 < thr" "4 * k + 3 < length (data img)"
  shows "pixel (data (removeByColor img targetColor thr)) k =
           (if totalDiffOf (pixel (data img) k) targetColor < thr
            then withAlpha (pixel (data img) k) 0
            else pixel (data img) k)"
proof -
  let ?out = "data (removeByColor img targetColor thr)"
  note step = removeByColorPixel_step [OF assms(1)]
  have mem: "k \<in> set [0..<(length (data img) + 3) div 4]"
    using assms(2) by auto
  have other: "?out ! j = data img ! j" if "j mod 4 \<noteq> 3" for j
  proof -
    have "\<forall>k \<in> set [0..<(length (data img) + 3) div 4]. j \<noteq> 4 * k + 3"
      using that by auto
    then show ?thesis
      unfolding data_removeByColor
      by (rule fold_own_pixel_other [where h = "colorKeyAlpha targetColor thr", OF step])
  qed
  have m: "(4 * k) mod 4 \<noteq> 3" "(4 * k + 1) mod 4 \<noteq> 3" "(4 * k + 2) mod 4 \<noteq> 3"
    by presburger+
  have rgb: "?out ! (4 * k) = data img ! (4 * k)" "?out ! (4 * k + 1) = data img ! (4 * k + 1)"
    "?out ! (4 * k + 2) = data img ! (4 * k + 2)"
    by (rule other, rule m)+
  have alpha: "?out ! (4 * k + 3) =
          colorKeyAlpha targetColor thr (4 * k) (data img ! (4 * k)) (data img ! (4 * k + 1))
            (data img ! (4 * k + 2)) (data img ! (4 * k + 3))"
    unfolding data_removeByColor
    by (rule fold_own_pixel_alpha [where h = "colorKeyAlpha targetColor thr"])
       (rule step distinct_upt mem assms(2))+
  show ?thesis
    unfolding pixel_def [of ?out] rgb alpha colorKeyAlpha_def
    by (simp add: pixel_def withAlpha_def)
qed

text \<open>The theorem at both pixels of a 2\<times>1 image: the first is within the threshold of
  the target colour and becomes transparent, the second is not and keeps its alpha 180.\<close>

theorem color_key_binary_witness:
  "(0::real) < 30 \<and> 4 * 0 + 3 < length (data img10) \<and> 4 * 1 + 3 < length (data img10) \<and>
   pixel (data (removeByColor img10 grey10 30)) 0 = (20, 20, 20, 0) \<and>
   pixel (data (removeByColor img10 grey10 30)) 1 = (200, 100, 50, 180)"
proof -
  have h: "(0::real) < 30" "4 * 0 + 3 < length (data img10)" "4 * 1 + 3 < length (data img10)"
    by (simp_all add: img10_def)
  have p: "pixel (data img10) 0 = (20, 20, 20, 255)" "pixel (data img10) 1 = (200, 100, 50, 180)"
    by (simp_all add: img10_def pixel_def)
  have t: "totalDiffOf (20, 20, 20, 255) grey10 = 6" "totalDiffOf (200, 100, 50, 180) grey10 = 272 / 3"
    by (simp_all add: totalDiffOf_def grey10_def num_def)
  have r0: "pixel (data (removeByColor img10 grey10 30)) 0 = (20, 20, 20, 0)"
    using color_key_binary [OF h(1) h(2), of grey10] unfolding p t by (simp add: withAlpha_def)
  have r1: "pixel (data (removeByColor img10 grey10 30)) 1 = (200, 100, 50, 180)"
    using color_key_binary [OF h(1) h(3), of grey10] unfolding p t by simp
  show ?thesis
    using h r0 r1 by simp
qed

section \<open>Facts about erosion\<close>

lemma erodePixel_step:
  "erodePixel tempAlpha w yx a =
     a[(case yx of (y, x) \<Rightarrow> y * w + x) := erodeValue tempAlpha w yx (a ! (case yx of (y, x) \<Rightarrow> y * w + x))]"
  by (cases yx) (simp add: erodePixel_def erodeValue_def Let_def list_update_id)

lemma erodePass_length: "length (erodePass w h am) = length am"
  unfolding erodePass_def Let_def
  by (rule fold_slot_length [where g = "erodeValue am w"]) (rule erodePixel_step)

lemma erodePass_interior:
  assumes "(y, x) \<in> set (interiorCoords w h)" "y * w + x < length am"
  shows "erodePass w h am ! (y * w + x) =
           (if am ! (y * w + x) \<noteq> 0 \<and> erodeHasTransparent am w y x then 0 else am ! (y * w + x))"
proof -
  have "fold (erodePixel am w) (interiorCoords w h) am ! (case (y, x) of (y, x) \<Rightarrow> y * w + x) =
          erodeValue am w (y, x) (am ! (case (y, x) of (y, x) \<Rightarrow> y * w + x))"
    by (rule fold_slot_self [where g = "erodeValue am w"])
       (use assms in \<open>simp_all add: erodePixel_step distinct_interiorCoords\<close>)
  then show ?thesis
    unfolding erodePass_def Let_def by (simp add: erodeValue_def num_pos_iff)
qed

lemma erodePass_other:
  assumes "\<forall>(y, x) \<in> set (interiorCoords w h). y * w + x \<noteq> k"
  shows "erodePass w h am ! k = am ! k"
  unfolding erodePass_def Let_def
  by (rule fold_slot_other [where g = "erodeValue am w" and p = "\<lambda>(y, x). y * w + x"])
     (use assms in \<open>auto simp: erodePixel_step\<close>)

lemma erodePass_cases:
  assumes "k < length am"
  shows "erodePass w h am ! k = am ! k \<or>
         (erodePass w h am ! k = 0 \<and>
          (\<exists>y x. (y, x) \<in> set (interiorCoords w h) \<and> k = y * w + x \<and> erodeHasTransparent am w y x))"
proof (cases "\<forall>(y, x) \<in> set (interiorCoords w h). y * w + x \<noteq> k")
  case True
  then show ?thesis
    by (simp add: erodePass_other)
next
  case False
  then obtain y x where yx: "(y, x) \<in> set (interiorCoords w h)" "k = y * w + x"
    by auto
  show ?thesis
    using erodePass_interior [OF yx(1), of am] assms yx by auto
qed

lemma erodePass_zero: "k < length am \<Longrightarrow> am ! k = 0 \<Longrightarrow> erodePass w h am ! k = 0"
  using erodePass_cases [of k am w h] by auto

lemma erodePasses_length: "length ((erodePass w h ^^ n) am) = length am"
  by (induction n) (simp_all add: erodePass_length)

lemma erodePasses_zero:
  "k < length am \<Longrightarrow> am ! k = 0 \<Longrightarrow> (erodePass w h ^^ n) am ! k = 0"
  by (induction n) (simp_all add: erodePass_zero erodePasses_length)

text \<open>A map without a transparent entry is a fixed point of a pass.\<close>

lemma erodePass_no_transparent:
  assumes "length am = w * h" "\<forall>k < w * h. am ! k \<noteq> 0"
  shows "erodePass w h am = am"
proof (rule nth_equalityI)
  show "length (erodePass w h am) = length am"
    by (rule erodePass_length)
next
  fix k
  assume "k < length (erodePass w h am)"
  then have k: "k < length am"
    by (simp add: erodePass_length)
  have "\<not> erodeHasTransparent am w y x" if "(y, x) \<in> set (interiorCoords w h)" for y x
  proof -
    have "am ! neighbourIdx w y x off \<noteq> 0" if "off \<in> set neighbours8" for off
      using neighbourIdx_interior [OF \<open>(y, x) \<in> set (interiorCoords w h)\<close>, of off]
        that neighbours8_subset assms(2) by auto
    then show ?thesis
      by (simp add: erodeHasTransparent_def list_ex_iff)
  qed
  then show "erodePass w h am ! k = am ! k"
    using erodePass_cases [OF k, of w h] by auto
qed

lemma erodePasses_no_transparent:
  assumes "length am = w * h" "\<forall>k < w * h. am ! k \<noteq> 0"
  shows "(erodePass w h ^^ n) am = am"
  by (induction n) (simp_all add: erodePass_no_transparent [OF assms])

text \<open>The initial alpha map and the final write-back.\<close>

lemma copyAlpha_fold:
  "fold (copyAlpha d) (stride4 (length d)) (replicate n 0) = alphaMapOf d n"
proof (rule nth_equalityI)
  have step: "copyAlpha d i a = a[i div 4 := (\<lambda>i old. if i + 3 < length d then d ! (i + 3) else 0) i (a ! (i div 4))]"
    for i a
    by (simp add: copyAlpha_def)
  show len: "length (fold (copyAlpha d) (stride4 (length d)) (replicate n 0)) = length (alphaMapOf d n)"
    using fold_slot_length [of "copyAlpha d" "\<lambda>i. i div 4", OF step]
    by (simp add: alphaMapOf_def)
  fix k
  assume "k < length (fold (copyAlpha d) (stride4 (length d)) (replicate n 0))"
  then have k: "k < n"
    using len by (simp add: alphaMapOf_def)
  show "fold (copyAlpha d) (stride4 (length d)) (replicate n 0) ! k = alphaMapOf d n ! k"
  proof (cases "4 * k < length d")
    case True
    then have mem: "4 * k \<in> set (stride4 (length d))"
      by (simp add: set_stride4)
    have dist: "distinct (map (\<lambda>i. i div 4) (stride4 (length d)))"
      by (simp add: stride4_def comp_def)
    have "fold (copyAlpha d) (stride4 (length d)) (replicate n 0) ! ((4 * k) div 4) =
            (if 4 * k + 3 < length d then d ! (4 * k + 3) else 0)"
      using fold_slot_self [of "copyAlpha d" "\<lambda>i. i div 4", OF step dist mem, of "replicate n 0"] k
      by simp
    then show ?thesis
      using k by (simp add: alphaMapOf_def)
  next
    case False
    then have "\<forall>i \<in> set (stride4 (length d)). i div 4 \<noteq> k"
      by (auto simp: set_stride4)
    then have "fold (copyAlpha d) (stride4 (length d)) (replicate n 0) ! k = replicate n 0 ! k"
      by (rule fold_slot_other [of "copyAlpha d" "\<lambda>i. i div 4", OF step])
    then show ?thesis
      using k False by (simp add: alphaMapOf_def)
  qed
qed

lemma writeAlpha_step:
  "writeAlpha am i d =
     d[i + 3 := (\<lambda>i r g b a. if i div 4 < length am then am ! (i div 4) else 0)
                  i (d ! i) (d ! (i + 1)) (d ! (i + 2)) (d ! (i + 3))]"
  by (simp add: writeAlpha_def)

lemma data_erodeEdges:
  "data (erodeEdges img n) =
     fold (writeAlpha ((erodePass (width img) (height img) ^^ n)
                         (alphaMapOf (data img) (width img * height img))))
       (map (\<lambda>k. 4 * k) [0..<(length (data img) + 3) div 4]) (data img)"
  unfolding erodeEdges_def Let_def copyAlpha_fold by (simp add: stride4_def)

lemma erodeEdges_length: "length (data (erodeEdges img n)) = length (data img)"
  unfolding data_erodeEdges by (rule fold_own_pixel_length [OF writeAlpha_step])

lemma erodeEdges_other:
  assumes "j mod 4 \<noteq> 3"
  shows "data (erodeEdges img n) ! j = data img ! j"
proof -
  have "\<forall>k \<in> set [0..<(length (data img) + 3) div 4]. j \<noteq> 4 * k + 3"
    using assms by auto
  then show ?thesis
    unfolding data_erodeEdges by (rule fold_own_pixel_other [OF writeAlpha_step])
qed

lemma erodeEdges_alpha:
  assumes "4 * k + 3 < length (data img)" "k < width img * height img"
  shows "alphaOf (data (erodeEdges img n)) k =
           (erodePass (width img) (height img) ^^ n)
             (alphaMapOf (data img) (width img * height img)) ! k"
proof -
  let ?am = "(erodePass (width img) (height img) ^^ n) (alphaMapOf (data img) (width img * height img))"
  have mem: "k \<in> set [0..<(length (data img) + 3) div 4]"
    using assms(1) by auto
  have "data (erodeEdges img n) ! (4 * k + 3) =
          (\<lambda>i r g b a. if i div 4 < length ?am then ?am ! (i div 4) else 0) (4 * k)
             (data img ! (4 * k)) (data img ! (4 * k + 1)) (data img ! (4 * k + 2)) (data img ! (4 * k + 3))"
    unfolding data_erodeEdges
    by (rule fold_own_pixel_alpha [OF writeAlpha_step distinct_upt mem assms(1)])
  then show ?thesis
    using assms(2) by (simp add: alphaOf_def erodePasses_length alphaMapOf_def)
qed

section \<open>Scenario C: two erosion passes\<close>

lemma fromAlpha_length: "length (data (fromAlpha w h am)) = 4 * length am"
  by (induction am) (simp_all add: fromAlpha_def)

lemma fromAlpha_nth:
  "k < length am \<Longrightarrow> data (fromAlpha w h am) ! (4 * k + 3) = am ! k"
proof (induction am arbitrary: k)
  case Nil
  then show ?case by simp
next
  case (Cons a am)
  show ?case
  proof (cases k)
    case 0
    then show ?thesis by (simp add: fromAlpha_def)
  next
    case (Suc k')
    then have "data (fromAlpha w h am) ! (4 * k' + 3) = am ! k'"
      using Cons by simp
    then show ?thesis
      using Suc by (simp add: fromAlpha_def add.commute)
  qed
qed

lemma fromAlpha_wf: "length am = w * h \<Longrightarrow> wf_ImageData (fromAlpha w h am)"
  unfolding wf_ImageData_def fromAlpha_length by (simp add: fromAlpha_def)

lemma fromAlpha_alphas:
  "map (alphaOf (data (fromAlpha w h am))) [0..<length am] = am"
  by (rule nth_equalityI) (simp_all add: alphaOf_def fromAlpha_nth)

lemma alphaMapOf_wf:
  assumes "wf_ImageData img"
  shows "alphaMapOf (data img) (width img * height img) =
           map (alphaOf (data img)) [0..<width img * height img]"
  unfolding alphaMapOf_def using assms
  by (auto simp: wf_pixel_in_range [OF assms, symmetric] alphaOf_def)

lemma erodeEdges_alphas:
  assumes "wf_ImageData img"
  shows "map (alphaOf (data (erodeEdges img n))) [0..<width img * height img] =
           (erodePass (width img) (height img) ^^ n)
             (map (alphaOf (data img)) [0..<width img * height img])"
proof (rule nth_equalityI)
  show "length (map (alphaOf (data (erodeEdges img n))) [0..<width img * height img]) =
          length ((erodePass (width img) (height img) ^^ n)
             (map (alphaOf (data img)) [0..<width img * height img]))"
    by (simp add: erodePasses_length)
next
  fix k
  assume "k < length (map (alphaOf (data (erodeEdges img n))) [0..<width img * height img])"
  then have k: "k < width img * height img"
    by simp
  then have "4 * k + 3 < length (data img)"
    using assms by (simp add: wf_pixel_in_range)
  then show "map (alphaOf (data (erodeEdges img n))) [0..<width img * height img] ! k =
          (erodePass (width img) (height img) ^^ n)
             (map (alphaOf (data img)) [0..<width img * height img]) ! k"
    using k erodeEdges_alpha [of k img n] by (simp add: alphaMapOf_wf [OF assms])
qed

lemma erodeEdges_no_transparent:
  assumes "wf_ImageData img" "\<forall>k < width img * height img. alphaOf (data img) k \<noteq> 0"
  shows "erodeEdges img n = img"
proof -
  let ?w = "width img" and ?h = "height img"
  let ?am = "map (alphaOf (data img)) [0..<?w * ?h]"
  have fp: "(erodePass ?w ?h ^^ n) ?am = ?am"
    by (rule erodePasses_no_transparent) (use assms(2) in simp_all)
  have "data (erodeEdges img n) = data img"
  proof (rule nth_equalityI)
    show "length (data (erodeEdges img n)) = length (data img)"
      by (rule erodeEdges_length)
  next
    fix j
    assume "j < length (data (erodeEdges img n))"
    then have j: "j < length (data img)"
      by (simp add: erodeEdges_length)
    show "data (erodeEdges img n) ! j = data img ! j"
    proof (cases "j mod 4 = 3")
      case False
      then show ?thesis
        by (rule erodeEdges_other)
    next
      case True
      define k where "k = j div 4"
      have jk: "j = 4 * k + 3"
        using True unfolding k_def by presburger
      have k: "k < ?w * ?h"
        using j assms(1) unfolding jk by (simp add: wf_pixel_in_range)
      have "alphaOf (data (erodeEdges img n)) k = ?am ! k"
        using erodeEdges_alpha [of k img n] j k fp unfolding jk
        by (simp add: alphaMapOf_wf [OF assms(1)])
      then show ?thesis
        using k unfolding jk by (simp add: alphaOf_def)
    qed
  qed
  moreover have "erodeEdges img n = img\<lparr>data := data (erodeEdges img n)\<rparr>"
    by (simp add: erodeEdges_def Let_def)
  ultimately show ?thesis
    by simp
qed

lemma interiorCoords_7:
  "interiorCoords 7 7 =
     [(1,1),(1,2),(1,3),(1,4),(1,5),(2,1),(2,2),(2,3),(2,4),(2,5),(3,1),(3,2),(3,3),(3,4),(3,5),
      (4,1),(4,2),(4,3),(4,4),(4,5),(5,1),(5,2),(5,3),(5,4),(5,5)]"
  by (simp add: interiorCoords_def upt_rec)

lemma erodePass_square5in7: "erodePass 7 7 square5in7 = square3in7"
  unfolding erodePass_def Let_def interiorCoords_7
  by (simp add: square5in7_def square3in7_def erodePixel_def erodeHasTransparent_def
      neighbours8_def neighbourIdx_def num_def)

lemma erodePass_square3in7: "erodePass 7 7 square3in7 = centre1in7"
  unfolding erodePass_def Let_def interiorCoords_7
  by (simp add: centre1in7_def square3in7_def erodePixel_def erodeHasTransparent_def
      neighbours8_def neighbourIdx_def num_def)

text \<open>
  Claim C5, as stated, fails. \<open>erodeEdges\<close> visits only the pixels that are not on the border
  of the buffer and tests only neighbours inside the buffer; what lies outside the buffer
  does not count as transparent. In a 5\<times>5 buffer whose pixels are all opaque no pixel has a
  transparent neighbour, and after two passes all 25 pixels are still opaque.
\<close>

theorem erode_opaque_buffer_counterexample:
  "width img5 = 5 \<and> height img5 = 5 \<and>
   map (alphaOf (data img5)) [0..<25] = replicate 25 255 \<and>
   map (alphaOf (data (erodeEdges img5 2))) [0..<25] = replicate 25 255"
proof -
  have wf: "wf_ImageData img5"
    unfolding img5_def by (rule fromAlpha_wf) simp
  have a: "map (alphaOf (data img5)) [0..<25] = replicate 25 255"
    using fromAlpha_alphas [of 5 5 "replicate 25 255"] by (simp add: img5_def)
  have wh: "width img5 = 5" "height img5 = 5"
    by (simp_all add: img5_def fromAlpha_def)
  have "alphaOf (data img5) k \<noteq> 0" if "k < 25" for k
  proof -
    have "map (alphaOf (data img5)) [0..<25] ! k = replicate 25 255 ! k"
      by (simp only: a)
    then show ?thesis
      using that by simp
  qed
  then have "erodeEdges img5 2 = img5"
    by (intro erodeEdges_no_transparent [OF wf]) (simp add: wh)
  then show ?thesis
    using a wh by simp
qed

text \<open>
  Claim C5, amended. Erosion, with any number of passes, leaves a buffer whose pixels are all
  opaque unchanged. When the opaque 5\<times>5 square lies in a 7\<times>7 buffer, surrounded by a margin
  of fully transparent pixels, each pass removes one outer ring of the square: after one pass
  the opaque pixels are the central 3\<times>3 square, and after two passes (\<open>erodePixels = 2\<close>) only
  the centre pixel is opaque.
\<close>

theorem erode_scenario:
  assumes "wf_ImageData img"
  shows "((\<forall>k < width img * height img. alphaOf (data img) k = 255) \<longrightarrow> erodeEdges img n = img) \<and>
         (width img = 7 \<and> height img = 7 \<and> map (alphaOf (data img)) [0..<49] = square5in7 \<longrightarrow>
            map (alphaOf (data (erodeEdges img 1))) [0..<49] = square3in7 \<and>
            map (alphaOf (data (erodeEdges img 2))) [0..<49] = centre1in7)"
proof (intro conjI impI)
  assume "\<forall>k < width img * height img. alphaOf (data img) k = 255"
  then have "\<forall>k < width img * height img. alphaOf (data img) k \<noteq> 0"
    by simp
  with assms show "erodeEdges img n = img"
    by (rule erodeEdges_no_transparent)
next
  assume h: "width img = 7 \<and> height img = 7 \<and> map (alphaOf (data img)) [0..<49] = square5in7"
  have e: "map (alphaOf (data (erodeEdges img n))) [0..<49] = (erodePass 7 7 ^^ n) square5in7" for n
    using erodeEdges_alphas [OF assms, of n] h by simp
  show "map (alphaOf (data (erodeEdges img 1))) [0..<49] = square3in7"
    unfolding e by (simp add: erodePass_square5in7)
  show "map (alphaOf (data (erodeEdges img 2))) [0..<49] = centre1in7"
    unfolding e by (simp add: numeral_2_eq_2 erodePass_square5in7 erodePass_square3in7)
qed

text \<open>The amended statement at the 7\<times>7 buffer of black pixels.\<close>

theorem erode_scenario_witness:
  "wf_ImageData img7 \<and> width img7 = 7 \<and> height img7 = 7 \<and>
   map (alphaOf (data img7)) [0..<49] = square5in7 \<and>
   map (alphaOf (data (erodeEdges img7 1))) [0..<49] = square3in7 \<and>
   map (alphaOf (data (erodeEdges img7 2))) [0..<49] = centre1in7"
proof -
  have len: "length square5in7 = 49"
    by (simp add: square5in7_def)
  have wf: "wf_ImageData img7"
    unfolding img7_def by (rule fromAlpha_wf) (simp add: len)
  have h: "width img7 = 7 \<and> height img7 = 7 \<and> map (alphaOf (data img7)) [0..<49] = square5in7"
    using fromAlpha_alphas [of 7 7 square5in7] by (simp add: img7_def len fromAlpha_def)
  show ?thesis
    using wf h erode_scenario [OF wf, of 0] by simp
qed

section \<open>What every filter preserves\<close>

lemma frame_refl: "frame d d"
  by (simp add: frame_def)

lemma frame_update:
  assumes "frame d0 d" "i mod 4 = 0" "i + 3 < length d0 \<longrightarrow> d0 ! (i + 3) \<noteq> 0"
  shows "frame d0 (d[i + 3 := v])"
  unfolding frame_def
proof (intro conjI allI impI)
  show "length (d[i + 3 := v]) = length d0"
    using assms(1) by (simp add: frame_def)
next
  fix j
  assume j: "j < length d0" and c: "j mod 4 \<noteq> 3 \<or> d0 ! j = 0"
  have "(i + 3) mod 4 = 3"
    using assms(2) by presburger
  then have "j \<noteq> i + 3"
    using c j assms(3) by auto
  then show "d[i + 3 := v] ! j = d0 ! j"
    using assms(1) j c by (simp add: frame_def)
qed

lemma frame_nonzero:
  assumes "frame d0 d" "d ! (i + 3) \<noteq> 0"
  shows "i + 3 < length d0 \<longrightarrow> d0 ! (i + 3) \<noteq> 0"
  using assms unfolding frame_def by metis

lemma pixel_index_mod4: "((y * w + x) * 4) mod 4 = (0::nat)"
  by simp

lemma frame_smoothPixel:
  assumes "frame d0 d"
  shows "frame d0 (smoothPixel d0 w yx d)"
proof -
  obtain y x where yx: "yx = (y, x)"
    by (cases yx) auto
  show ?thesis
  proof (cases "num (d0 ! ((y * w + x) * 4 + 3)) > 0 \<and> num (d0 ! ((y * w + x) * 4 + 3)) < 255")
    case True
    then have "d0 ! ((y * w + x) * 4 + 3) \<noteq> 0"
      by (simp add: num_pos_iff)
    then have "frame d0 (d[(y * w + x) * 4 + 3 := v])" for v
      using assms pixel_index_mod4 by (intro frame_update) simp_all
    then show ?thesis
      using True unfolding yx smoothPixel_def Let_def prod.case by (simp only: simp_thms if_True)
  next
    case False
    then show ?thesis
      using assms False unfolding yx smoothPixel_def Let_def prod.case by (simp only: if_False)
  qed
qed

lemma frame_lightEdgePixel:
  assumes "frame d0 d"
  shows "frame d0 (lightEdgePixel m w yx d)"
proof -
  obtain y x where yx: "yx = (y, x)"
    by (cases yx) auto
  have upd: "frame d0 (d[(y * w + x) * 4 + 3 := v])" if "num (d ! ((y * w + x) * 4 + 3)) > 0" for v
  proof -
    have "d ! ((y * w + x) * 4 + 3) \<noteq> 0"
      using that by (simp add: num_pos_iff)
    then have "(y * w + x) * 4 + 3 < length d0 \<longrightarrow> d0 ! ((y * w + x) * 4 + 3) \<noteq> 0"
      using assms by (intro frame_nonzero)
    then show ?thesis
      using assms pixel_index_mod4 by (intro frame_update)
  qed
  show ?thesis
    unfolding yx lightEdgePixel_def Let_def prod.case
    using assms upd by (simp split: if_split)
qed

lemma frame_cleanupPixel:
  assumes "frame d0 d"
  shows "frame d0 (cleanupPixel w h yx d)"
proof -
  obtain y x where yx: "yx = (y, x)"
    by (cases yx) auto
  have upd: "frame d0 (d[(y * w + x) * 4 + 3 := v])" if "num (d ! ((y * w + x) * 4 + 3)) > 0" for v
  proof -
    have "d ! ((y * w + x) * 4 + 3) \<noteq> 0"
      using that by (simp add: num_pos_iff)
    then have "(y * w + x) * 4 + 3 < length d0 \<longrightarrow> d0 ! ((y * w + x) * 4 + 3) \<noteq> 0"
      using assms by (intro frame_nonzero)
    then show ?thesis
      using assms pixel_index_mod4 by (intro frame_update)
  qed
  show ?thesis
    unfolding yx cleanupPixel_def Let_def prod.case
    using assms upd by (simp split: if_split)
qed

lemma frame_glassPixel:
  assumes "frame d0 d"
  shows "frame d0 (glassPixel pz w bt yx d)"
proof -
  obtain y x where yx: "yx = (y, x)"
    by (cases yx) auto
  let ?i = "(y * w + x) * 4"
  have upd: "frame d0 (d'[?i + 3 := v])" if "num (d ! (?i + 3)) \<noteq> 0" "frame d0 d'" for v d'
  proof -
    have "d ! (?i + 3) \<noteq> 0"
      using that(1) by (simp add: num_eq_0_iff)
    then have "?i + 3 < length d0 \<longrightarrow> d0 ! (?i + 3) \<noteq> 0"
      using assms by (intro frame_nonzero)
    then show ?thesis
      using that(2) pixel_index_mod4 by (intro frame_update)
  qed
  show ?thesis
  proof (cases "pz ! (y * w + x) \<noteq> 1 \<or> num (d ! (?i + 3)) = 0")
    case True
    then show ?thesis
      unfolding yx glassPixel_def Let_def prod.case using assms by auto
  next
    case False
    then have nz: "num (d ! (?i + 3)) \<noteq> 0" and pz: "pz ! (y * w + x) = 1"
      by auto
    define br where
      "br = fdiv (fadd (fadd (num (d ! ?i)) (num (d ! (?i + 1)))) (num (d ! (?i + 2)))) 3"
    define d1 where "d1 = (if br > bt then
                           d[?i + 3 := toUint8Clamp (max 0 (fsub (num (d ! (?i + 3)))
                              (fmul (fdiv (fsub br bt) (fsub 255 bt)) (num (d ! (?i + 3))))))]
                         else d)"
    have f1: "frame d0 d1"
      unfolding d1_def using upd [OF nz assms] assms by (simp split: if_split)
    have g: "glassPixel pz w bt (y, x) d =
        (if num (d ! (?i + 3)) > 0 \<and> num (d ! (?i + 3)) < 180 \<and> br > fsub bt 20
         then d1[?i + 3 :=
                   toUint8Clamp (max 0 (real_of_int \<lfloor>fmul (num (d ! (?i + 3))) (fl 0.3)\<rfloor>))]
         else d1)"
      unfolding glassPixel_def Let_def prod.case d1_def br_def using nz pz
      by (simp only: simp_thms if_False not_not if_True)
    show ?thesis
      unfolding yx g using upd [OF nz f1] f1 by (simp split: if_split)
  qed
qed

lemma frame_smoothEdges: "frame (data img) (data (smoothEdges img))"
proof -
  have "frame (data img) (fold (smoothPixel (data img) (width img)) cs (data img))" for cs
    by (rule fold_invariant) (simp_all add: frame_smoothPixel frame_refl)
  then show ?thesis
    by (simp add: smoothEdges_def Let_def)
qed

lemma frame_removeLightEdgeArtifacts: "frame (data img) (data (removeLightEdgeArtifacts img))"
proof -
  have "frame (data img) (fold (lightEdgePixel m (width img)) cs (data img))" for cs m
    by (rule fold_invariant) (simp_all add: frame_lightEdgePixel frame_refl)
  then show ?thesis
    by (simp add: removeLightEdgeArtifacts_def Let_def)
qed

lemma frame_aggressiveEdgeCleanup: "frame (data img) (data (aggressiveEdgeCleanup img))"
proof -
  have "frame (data img) (fold (cleanupPixel (width img) (height img)) cs (data img))" for cs
    by (rule fold_invariant) (simp_all add: frame_cleanupPixel frame_refl)
  then show ?thesis
    by (simp add: aggressiveEdgeCleanup_def Let_def)
qed

lemma frame_removeLiquidGlassOutline:
  "frame (data img) (data (removeLiquidGlassOutline img ow bt))"
proof -
  have "frame (data img) (fold (glassPixel pz (width img) bt) cs (data img))" for cs pz
    by (rule fold_invariant) (simp_all add: frame_glassPixel frame_refl)
  then show ?thesis
    by (simp add: removeLiquidGlassOutline_def Let_def)
qed

lemma frame_erodeEdges:
  assumes "wf_ImageData img"
  shows "frame (data img) (data (erodeEdges img n))"
  unfolding frame_def
proof (intro conjI allI impI)
  show "length (data (erodeEdges img n)) = length (data img)"
    by (rule erodeEdges_length)
next
  fix j
  assume j: "j < length (data img)" and c: "j mod 4 \<noteq> 3 \<or> data img ! j = 0"
  show "data (erodeEdges img n) ! j = data img ! j"
  proof (cases "j mod 4 = 3")
    case False
    then show ?thesis
      by (rule erodeEdges_other)
  next
    case True
    define k where "k = j div 4"
    have jk: "j = 4 * k + 3"
      using True unfolding k_def by presburger
    have k: "k < width img * height img"
      using j assms unfolding jk by (simp add: wf_pixel_in_range)
    have z: "data img ! (4 * k + 3) = 0"
      using c True jk by simp
    have "alphaOf (data (erodeEdges img n)) k =
            (erodePass (width img) (height img) ^^ n)
              (map (alphaOf (data img)) [0..<width img * height img]) ! k"
      using erodeEdges_alpha [of k img n] j k unfolding jk
      by (simp add: alphaMapOf_wf [OF assms])
    also have "\<dots> = 0"
      by (rule erodePasses_zero) (use k z in \<open>simp_all add: alphaOf_def\<close>)
    finally show ?thesis
      unfolding jk using z by (simp add: alphaOf_def)
  qed
qed

lemma frame_applyFilter:
  assumes "wf_ImageData img"
  shows "frame (data img) (data (applyFilter f img))"
  by (cases f)
     (simp_all add: frame_smoothEdges frame_removeLightEdgeArtifacts frame_erodeEdges [OF assms]
        frame_aggressiveEdgeCleanup frame_removeLiquidGlassOutline)

lemma applyFilter_dims:
  "width (applyFilter f img) = width img \<and> height (applyFilter f img) = height img"
  by (cases f)
     (simp_all add: smoothEdges_def removeLightEdgeArtifacts_def erodeEdges_def
        aggressiveEdgeCleanup_def removeLiquidGlassOutline_def Let_def)

section \<open>Pixels without a transparent neighbour\<close>

lemma inBounds_interior:
  assumes "(y, x) \<in> set (interiorCoords w h)" "off \<in> set window9"
  shows "inBounds w h y x off"
proof -
  obtain dy dx where off: "off = (dy, dx)"
    by (cases off) auto
  have b: "1 \<le> y" "y + 1 < h" "1 \<le> x" "x + 1 < w"
    using assms(1) by (simp_all add: interiorCoords_iff)
  have d: "-1 \<le> dy" "dy \<le> 1" "-1 \<le> dx" "dx \<le> 1"
    using assms(2) off by (auto simp: window9_def)
  show ?thesis
    unfolding off inBounds_def prod.case using b d by linarith
qed

text \<open>With all in-buffer neighbours of nonzero alpha, neither test for a transparent
  neighbour succeeds.\<close>

lemma neighboursNonzero_hasTransparent:
  assumes "neighboursNonzero img x y" "(y, x) \<in> set (interiorCoords (width img) (height img))"
  shows "\<not> hasTransparent (data img) (width img) y x"
proof
  assume "hasTransparent (data img) (width img) y x"
  then obtain off where off: "off \<in> set neighbours8"
    and z: "data img ! (neighbourIdx (width img) y x off * 4 + 3) = 0"
    by (auto simp: hasTransparent_def list_ex_iff)
  have "inBounds (width img) (height img) y x off"
    using assms(2) off neighbours8_subset by (intro inBounds_interior) auto
  then have "alphaOf (data img) (neighbourIdx (width img) y x off) \<noteq> 0"
    using assms(1) off by (auto simp: neighboursNonzero_def list_all_iff)
  then show False
    using z by (simp add: alphaOf_def mult.commute)
qed

lemma neighboursNonzero_erodeHasTransparent:
  assumes "neighboursNonzero img x y" "(y, x) \<in> set (interiorCoords (width img) (height img))"
  shows "\<not> erodeHasTransparent (map (alphaOf (data img)) [0..<width img * height img]) (width img) y x"
proof
  assume "erodeHasTransparent (map (alphaOf (data img)) [0..<width img * height img]) (width img) y x"
  then obtain off where off: "off \<in> set neighbours8"
    and z: "map (alphaOf (data img)) [0..<width img * height img] ! neighbourIdx (width img) y x off = 0"
    by (auto simp: erodeHasTransparent_def list_ex_iff)
  have w9: "off \<in> set window9"
    using off neighbours8_subset by auto
  have "neighbourIdx (width img) y x off < width img * height img"
    using assms(2) w9 by (rule neighbourIdx_interior)
  then have z': "alphaOf (data img) (neighbourIdx (width img) y x off) = 0"
    using z by simp
  have "inBounds (width img) (height img) y x off"
    using assms(2) w9 by (rule inBounds_interior)
  then have "alphaOf (data img) (neighbourIdx (width img) y x off) \<noteq> 0"
    using assms(1) off by (auto simp: neighboursNonzero_def list_all_iff)
  then show False
    using z' by simp
qed

subsection \<open>The outer-edge mask\<close>

lemma markOuterEdge_step:
  "markOuterEdge d w yx m =
     m[(case yx of (y, x) \<Rightarrow> y * w + x) := outerEdgeValue d w yx (m ! (case yx of (y, x) \<Rightarrow> y * w + x))]"
  by (cases yx) (simp add: markOuterEdge_def outerEdgeValue_def Let_def list_update_id)

lemma findOuterEdge_marked:
  assumes "k < w * h" "findOuterEdge d w h ! k = 1"
  shows "\<exists>y x. (y, x) \<in> set (interiorCoords w h) \<and> k = y * w + x \<and> hasTransparent d w y x"
proof (cases "\<forall>(y, x) \<in> set (interiorCoords w h). y * w + x \<noteq> k")
  case True
  have "findOuterEdge d w h ! k = replicate (w * h) 0 ! k"
    unfolding findOuterEdge_def
    by (rule fold_slot_other [where g = "outerEdgeValue d w" and p = "\<lambda>(y, x). y * w + x"])
       (use True in \<open>auto simp: markOuterEdge_step\<close>)
  then show ?thesis
    using assms by simp
next
  case False
  then obtain y x where yx: "(y, x) \<in> set (interiorCoords w h)" "k = y * w + x"
    by auto
  have "fold (markOuterEdge d w) (interiorCoords w h) (replicate (w * h) 0) !
          (case (y, x) of (y, x) \<Rightarrow> y * w + x) =
        outerEdgeValue d w (y, x) (replicate (w * h) 0 ! (case (y, x) of (y, x) \<Rightarrow> y * w + x))"
    by (rule fold_slot_self [where g = "outerEdgeValue d w"])
       (use yx assms(1) in \<open>simp_all add: markOuterEdge_step distinct_interiorCoords\<close>)
  then have "hasTransparent d w y x"
    using assms yx by (simp add: findOuterEdge_def outerEdgeValue_def split: if_splits)
  then show ?thesis
    using yx by blast
qed

lemma lightEdgePixel_unmarked:
  assumes "m ! k \<noteq> 1"
  shows "lightEdgePixel m w yx d ! (4 * k + 3) = d ! (4 * k + 3)"
proof -
  obtain y x where yx: "yx = (y, x)"
    by (cases yx) auto
  show ?thesis
  proof (cases "m ! (y * w + x) \<noteq> 1")
    case True
    then show ?thesis
      unfolding yx lightEdgePixel_def Let_def prod.case by simp
  next
    case False
    then have "y * w + x \<noteq> k"
      using assms by auto
    then have "(y * w + x) * 4 + 3 \<noteq> 4 * k + 3"
      by simp
    then have "d[(y * w + x) * 4 + 3 := v] ! (4 * k + 3) = d ! (4 * k + 3)" for v
      by simp
    then show ?thesis
      unfolding yx lightEdgePixel_def Let_def prod.case by (simp split: if_split)
  qed
qed

lemma removeLightEdgeArtifacts_unmarked:
  assumes "findOuterEdge (data img) (width img) (height img) ! k \<noteq> 1"
  shows "data (removeLightEdgeArtifacts img) ! (4 * k + 3) = data img ! (4 * k + 3)"
proof -
  let ?m = "findOuterEdge (data img) (width img) (height img)"
  have "fold (lightEdgePixel ?m (width img)) cs (data img) ! (4 * k + 3) = data img ! (4 * k + 3)" for cs
    by (rule fold_invariant [where I = "\<lambda>d. d ! (4 * k + 3) = data img ! (4 * k + 3)"])
       (simp_all add: lightEdgePixel_unmarked [OF assms])
  then show ?thesis
    by (simp add: removeLightEdgeArtifacts_def Let_def)
qed

lemma removeLightEdgeArtifacts_interior:
  assumes "x < width img" "y < height img" "neighboursNonzero img x y"
  shows "alphaOf (data (removeLightEdgeArtifacts img)) (pixelIndex img x y) =
           alphaOf (data img) (pixelIndex img x y)"
proof -
  let ?w = "width img" and ?h = "height img"
  let ?k = "y * ?w + x"
  have k: "?k < ?w * ?h"
    using assms(1,2) by (simp add: row_major_bound)
  have "findOuterEdge (data img) ?w ?h ! ?k \<noteq> 1"
  proof
    assume "findOuterEdge (data img) ?w ?h ! ?k = 1"
    then obtain y' x' where yx: "(y', x') \<in> set (interiorCoords ?w ?h)" "?k = y' * ?w + x'"
      and t: "hasTransparent (data img) ?w y' x'"
      using findOuterEdge_marked [OF k] by blast
    have "x' < ?w"
      using yx(1) by (simp add: interiorCoords_iff)
    with yx(2) assms(1) have "y = y' \<and> x = x'"
      by (intro row_major_inj)
    then show False
      using t yx(1) neighboursNonzero_hasTransparent [OF assms(3)] by simp
  qed
  then show ?thesis
    unfolding pixelIndex_def alphaOf_def by (rule removeLightEdgeArtifacts_unmarked)
qed

lemma erodeEdges_interior:
  assumes "wf_ImageData img" "x < width img" "y < height img" "neighboursNonzero img x y" "n \<le> 1"
  shows "alphaOf (data (erodeEdges img n)) (pixelIndex img x y) =
           alphaOf (data img) (pixelIndex img x y)"
proof -
  let ?w = "width img" and ?h = "height img"
  let ?k = "y * ?w + x"
  let ?am = "map (alphaOf (data img)) [0..<?w * ?h]"
  have k: "?k < ?w * ?h"
    using assms(2,3) by (simp add: row_major_bound)
  then have in_img: "4 * ?k + 3 < length (data img)"
    using assms(1) by (simp add: wf_pixel_in_range)
  have a: "alphaOf (data (erodeEdges img n)) ?k = (erodePass ?w ?h ^^ n) ?am ! ?k"
    using erodeEdges_alpha [OF in_img k, of n] by (simp add: alphaMapOf_wf [OF assms(1)])
  have "erodePass ?w ?h ?am ! ?k = ?am ! ?k"
  proof -
    have "\<not> (\<exists>y' x'. (y', x') \<in> set (interiorCoords ?w ?h) \<and> ?k = y' * ?w + x' \<and>
                erodeHasTransparent ?am ?w y' x')"
    proof
      assume "\<exists>y' x'. (y', x') \<in> set (interiorCoords ?w ?h) \<and> ?k = y' * ?w + x' \<and>
                erodeHasTransparent ?am ?w y' x'"
      then obtain y' x' where yx: "(y', x') \<in> set (interiorCoords ?w ?h)" "?k = y' * ?w + x'"
        and t: "erodeHasTransparent ?am ?w y' x'"
        by blast
      have "x' < ?w"
        using yx(1) by (simp add: interiorCoords_iff)
      with yx(2) assms(2) have "y = y' \<and> x = x'"
        by (intro row_major_inj)
      then show False
        using t yx(1) neighboursNonzero_erodeHasTransparent [OF assms(4)] by simp
    qed
    then show ?thesis
      using erodePass_cases [of ?k ?am ?w ?h] k by auto
  qed
  moreover have "n = 0 \<or> n = 1"
    using assms(5) by auto
  ultimately have "(erodePass ?w ?h ^^ n) ?am ! ?k = ?am ! ?k"
    by auto
  then show ?thesis
    unfolding pixelIndex_def a using k by simp
qed

section \<open>The invariant common to the filters\<close>

lemma wf_examples:
  "wf_ImageData imgSmooth" "wf_ImageData imgCleanup" "wf_ImageData imgGlass"
  by (simp_all add: wf_ImageData_def imgSmooth_def imgCleanup_def imgGlass_def)

lemma neighboursNonzero_imgSmooth: "neighboursNonzero imgSmooth 1 1"
  by (simp add: neighboursNonzero_def imgSmooth_def neighbours8_def inBounds_def neighbourIdx_def
      alphaOf_def)

lemma neighboursNonzero_img7: "neighboursNonzero img7 2 2"
proof -
  show ?thesis
    by (simp add: neighboursNonzero_def neighbours8_def inBounds_def neighbourIdx_def
        img7_def fromAlpha_def square5in7_def alphaOf_def)
qed

text \<open>Liquid-glass removal with outline width 1 and brightness 200 on the third small
  buffer: the outer edge is the pixel \<open>(1, 1)\<close>, the process zone the first three columns,
  and every opaque white pixel of the zone becomes fully transparent.\<close>

lemma glassPixel_unmarked:
  "pz ! (y * w + x) \<noteq> 1 \<Longrightarrow> glassPixel pz w bt (y, x) d = d"
  by (simp add: glassPixel_def)

lemma glassPixel_transparent:
  "d ! ((y * w + x) * 4 + 3) = 0 \<Longrightarrow> glassPixel pz w bt (y, x) d = d"
  by (simp add: glassPixel_def Let_def num_def)

lemma white_values:
  "fdiv (fadd (fadd 255 255) 255) 3 = 255" "fsub 255 200 = 55" "fdiv 55 55 = 1"
  "fmul 1 255 = 255" "fsub 255 255 = 0" "fsub 200 20 = 180"
  by (simp_all add: fl_compute)

lemma glassPixel_white:
  assumes "pz ! (y * w + x) = 1"
    and "d ! ((y * w + x) * 4) = 255" "d ! ((y * w + x) * 4 + 1) = 255"
    and "d ! ((y * w + x) * 4 + 2) = 255" "d ! ((y * w + x) * 4 + 3) = 255"
  shows "glassPixel pz w 200 (y, x) d = d[(y * w + x) * 4 + 3 := 0]"
proof -
  have n: "num (255 :: byte) = 255"
    by (simp add: num_def)
  show ?thesis
    unfolding glassPixel_def Let_def prod.case assms n white_values
    by (simp add: toUint8Clamp_def)
qed

lemma replicate_12: "replicate 12 (0 :: byte) = [0, 0, 0, 0, 0, 0, 0, 0, 0, 0, 0, 0]"
  by (simp add: eval_nat_numeral)

lemma outerEdge_imgGlass:
  "findOuterEdge (data imgGlass) 4 3 = [0, 0, 0, 0, 0, 1, 0, 0, 0, 0, 0, 0]"
  by (simp add: imgGlass_def neighbours8_def neighbourIdx_def
      findOuterEdge_def interiorCoords_def markOuterEdge_def hasTransparent_def upt_rec num_def
      replicate_12)

lemma processZone_imgGlass:
  "fold (markProcessZone [0, 0, 0, 0, 0, 1, 0, 0, 0, 0, 0, 0] 4 3 1) (allCoords 4 3)
     (replicate (4 * 3) 0) = [1, 1, 1, 0, 1, 1, 1, 0, 1, 1, 1, 0]"
  by (simp add: allCoords_def inBounds_def neighbourIdx_def markProcessZone_def inProcessZone_def
      upt_rec upto.simps replicate_12)

lemma glassPixels_imgGlass:
  "fold (glassPixel [1, 1, 1, 0, 1, 1, 1, 0, 1, 1, 1, 0] 4 200) (allCoords 4 3) (data imgGlass) =
     [0, 0, 0, 0,  255, 255, 255, 0,  255, 255, 255, 0,  255, 255, 255, 255,
      0, 0, 0, 0,  255, 255, 255, 0,  255, 255, 255, 0,  255, 255, 255, 255,
      0, 0, 0, 0,  255, 255, 255, 0,  255, 255, 255, 0,  255, 255, 255, 255]"
  by (simp add: imgGlass_def allCoords_def upt_rec glassPixel_unmarked glassPixel_transparent
      glassPixel_white)

lemma removeLiquidGlassOutline_imgGlass:
  "data (removeLiquidGlassOutline imgGlass 1 200) =
     [0, 0, 0, 0,  255, 255, 255, 0,  255, 255, 255, 0,  255, 255, 255, 255,
      0, 0, 0, 0,  255, 255, 255, 0,  255, 255, 255, 0,  255, 255, 255, 255,
      0, 0, 0, 0,  255, 255, 255, 0,  255, 255, 255, 0,  255, 255, 255, 255]"
proof -
  have w: "width imgGlass = 4" "height imgGlass = 3"
    by (simp_all add: imgGlass_def)
  have "data (removeLiquidGlassOutline imgGlass 1 200) =
      fold (glassPixel [1, 1, 1, 0, 1, 1, 1, 0, 1, 1, 1, 0] 4 200) (allCoords 4 3) (data imgGlass)"
    unfolding removeLiquidGlassOutline_def Let_def w outerEdge_imgGlass processZone_imgGlass
    by simp
  then show ?thesis
    unfolding glassPixels_imgGlass .
qed

text \<open>
  Claim C2, as stated, fails in its second half for four of the five filters. Each of the
  four pixels below has 8 neighbours of nonzero alpha in the input buffer and is modified:
  edge smoothing replaces the alpha 128 of a pixel surrounded by opaque pixels by the mean 241;
  two erosion passes remove a pixel of the second ring of an opaque square; aggressive
  cleanup removes a light pixel of alpha 100 surrounded by pixels of alpha 150; liquid-glass
  removal with outline width 1 removes a white pixel next to an outer-edge pixel.
\<close>

theorem filters_interior_counterexample:
  "(neighboursNonzero imgSmooth 1 1 \<and>
    alphaOf (data imgSmooth) (pixelIndex imgSmooth 1 1) = 128 \<and>
    alphaOf (data (smoothEdges imgSmooth)) (pixelIndex imgSmooth 1 1) = 241) \<and>
   (neighboursNonzero img7 2 2 \<and>
    alphaOf (data img7) (pixelIndex img7 2 2) = 255 \<and>
    alphaOf (data (erodeEdges img7 2)) (pixelIndex img7 2 2) = 0) \<and>
   (neighboursNonzero imgCleanup 1 1 \<and>
    alphaOf (data imgCleanup) (pixelIndex imgCleanup 1 1) = 100 \<and>
    alphaOf (data (aggressiveEdgeCleanup imgCleanup)) (pixelIndex imgCleanup 1 1) = 0) \<and>
   (neighboursNonzero imgGlass 2 1 \<and>
    alphaOf (data imgGlass) (pixelIndex imgGlass 2 1) = 255 \<and>
    alphaOf (data (removeLiquidGlassOutline imgGlass 1 200)) (pixelIndex imgGlass 2 1) = 0)"
proof (intro conjI)
  show "neighboursNonzero imgSmooth 1 1"
    by (rule neighboursNonzero_imgSmooth)
  show "alphaOf (data imgSmooth) (pixelIndex imgSmooth 1 1) = 128"
    by (simp add: imgSmooth_def alphaOf_def pixelIndex_def)
  show "alphaOf (data (smoothEdges imgSmooth)) (pixelIndex imgSmooth 1 1) = 241"
    by (simp add: imgSmooth_def neighbourIdx_def
      alphaOf_def pixelIndex_def smoothEdges_def interiorCoords_def smoothPixel_def window9_def
      num_def Math_round_def toUint8Clamp_def upt_rec)
  show "neighboursNonzero img7 2 2"
    by (rule neighboursNonzero_img7)
  have len: "length square5in7 = 49"
    by (simp add: square5in7_def)
  have wf: "wf_ImageData img7"
    unfolding img7_def by (rule fromAlpha_wf) (simp add: len)
  have wh: "width img7 = 7" "height img7 = 7"
    by (simp_all add: img7_def fromAlpha_def)
  have a0: "map (alphaOf (data img7)) [0..<49] = square5in7"
    using fromAlpha_alphas [of 7 7 square5in7] by (simp add: img7_def len)
  have a2: "map (alphaOf (data (erodeEdges img7 2))) [0..<49] = centre1in7"
    using erodeEdges_alphas [OF wf, of 2]
    by (simp add: wh a0 numeral_2_eq_2 erodePass_square5in7 erodePass_square3in7)
  have "map (alphaOf (data img7)) [0..<49] ! 16 = square5in7 ! 16"
    by (simp only: a0)
  then show "alphaOf (data img7) (pixelIndex img7 2 2) = 255"
    by (simp add: pixelIndex_def wh square5in7_def)
  have "map (alphaOf (data (erodeEdges img7 2))) [0..<49] ! 16 = centre1in7 ! 16"
    by (simp only: a2)
  then show "alphaOf (data (erodeEdges img7 2)) (pixelIndex img7 2 2) = 0"
    by (simp add: pixelIndex_def wh centre1in7_def)
  show "neighboursNonzero imgCleanup 1 1"
    by (simp add: neighboursNonzero_def imgCleanup_def neighbours8_def inBounds_def
        neighbourIdx_def alphaOf_def)
  show "alphaOf (data imgCleanup) (pixelIndex imgCleanup 1 1) = 100"
    by (simp add: imgCleanup_def alphaOf_def pixelIndex_def)
  show "alphaOf (data (aggressiveEdgeCleanup imgCleanup)) (pixelIndex imgCleanup 1 1) = 0"
    by (simp add: imgCleanup_def neighbours8_def inBounds_def neighbourIdx_def
      alphaOf_def pixelIndex_def aggressiveEdgeCleanup_def allCoords_def cleanupPixel_def
      opaqueNeighbours_def num_def upt_rec)
  show "neighboursNonzero imgGlass 2 1"
    by (simp add: neighboursNonzero_def imgGlass_def neighbours8_def inBounds_def
        neighbourIdx_def alphaOf_def)
  show "alphaOf (data imgGlass) (pixelIndex imgGlass 2 1) = 255"
    by (simp add: imgGlass_def alphaOf_def pixelIndex_def)
  show "alphaOf (data (removeLiquidGlassOutline imgGlass 1 200)) (pixelIndex imgGlass 2 1) = 0"
    unfolding removeLiquidGlassOutline_imgGlass
    by (simp add: alphaOf_def pixelIndex_def imgGlass_def)
qed

text \<open>
  Claim C2, amended. Every edge-refinement filter keeps the dimensions, leaves R, G and B of
  every pixel unchanged and leaves every alpha that is 0 at 0. Light-edge removal, and
  erosion with at most one pass, moreover never modify a pixel all of whose 8 immediate
  neighbours (those that lie in the buffer) have nonzero alpha.
\<close>

theorem filters_frame_and_interior:
  assumes "wf_ImageData img"
  shows "width (applyFilter f img) = width img \<and> height (applyFilter f img) = height img \<and>
         length (data (applyFilter f img)) = length (data img) \<and>
         (\<forall>j < length (data img). j mod 4 \<noteq> 3 \<longrightarrow> data (applyFilter f img) ! j = data img ! j) \<and>
         (\<forall>k < width img * height img.
            alphaOf (data img) k = 0 \<longrightarrow> alphaOf (data (applyFilter f img)) k = 0) \<and>
         (f = RemoveLightEdges \<or> f = ErodePixels 0 \<or> f = ErodePixels 1 \<longrightarrow>
            (\<forall>x < width img. \<forall>y < height img. neighboursNonzero img x y \<longrightarrow>
               pixel (data (applyFilter f img)) (pixelIndex img x y) =
                 pixel (data img) (pixelIndex img x y)))"
proof -
  let ?out = "data (applyFilter f img)"
  have fr: "frame (data img) ?out"
    using assms by (rule frame_applyFilter)
  have len: "length ?out = length (data img)"
    using fr by (simp add: frame_def)
  have rgb: "?out ! j = data img ! j" if "j < length (data img)" "j mod 4 \<noteq> 3" for j
    using fr that by (simp add: frame_def)
  have zero: "alphaOf ?out k = 0" if "k < width img * height img" "alphaOf (data img) k = 0" for k
  proof -
    have "4 * k + 3 < length (data img)"
      using that(1) assms by (simp add: wf_pixel_in_range)
    then show ?thesis
      using fr that(2) by (simp add: frame_def alphaOf_def)
  qed
  have interior: "pixel ?out (pixelIndex img x y) = pixel (data img) (pixelIndex img x y)"
    if f: "f = RemoveLightEdges \<or> f = ErodePixels 0 \<or> f = ErodePixels 1"
      and x: "x < width img" and y: "y < height img" and nz: "neighboursNonzero img x y" for x y
  proof -
    define k where "k = pixelIndex img x y"
    have "k < width img * height img"
      unfolding k_def pixelIndex_def using x y by (simp add: row_major_bound)
    then have in_img: "4 * k + 3 < length (data img)"
      using assms by (simp add: wf_pixel_in_range)
    have m: "(4 * k) mod 4 \<noteq> 3" "(4 * k + 1) mod 4 \<noteq> 3" "(4 * k + 2) mod 4 \<noteq> 3"
      by presburger+
    have c: "?out ! (4 * k) = data img ! (4 * k)" "?out ! (4 * k + 1) = data img ! (4 * k + 1)"
      "?out ! (4 * k + 2) = data img ! (4 * k + 2)"
      using in_img m by (simp_all add: rgb)
    have "alphaOf ?out k = alphaOf (data img) k"
      using f
    proof (elim disjE)
      assume "f = RemoveLightEdges"
      then show ?thesis
        unfolding k_def using removeLightEdgeArtifacts_interior [OF x y nz] by simp
    next
      assume "f = ErodePixels 0"
      then show ?thesis
        unfolding k_def using erodeEdges_interior [OF assms x y nz, of 0] by simp
    next
      assume "f = ErodePixels 1"
      then show ?thesis
        unfolding k_def using erodeEdges_interior [OF assms x y nz, of 1] by simp
    qed
    then have "pixel ?out k = pixel (data img) k"
      using c by (simp add: pixel_def alphaOf_def)
    then show ?thesis
      by (simp only: k_def)
  qed
  show ?thesis
    using applyFilter_dims [of f img] len rgb zero interior by blast
qed

text \<open>The amended statement at two inputs: under light-edge removal the pixel of alpha
  128 surrounded by opaque pixels is unchanged, and under liquid-glass removal the transparent
  pixel 0 stays transparent.\<close>

theorem filters_frame_and_interior_witness:
  "wf_ImageData imgSmooth \<and> (1::nat) < width imgSmooth \<and> (1::nat) < height imgSmooth \<and>
   neighboursNonzero imgSmooth 1 1 \<and>
   pixel (data (removeLightEdgeArtifacts imgSmooth)) (pixelIndex imgSmooth 1 1) = (0, 0, 0, 128) \<and>
   wf_ImageData imgGlass \<and> 0 < width imgGlass * height imgGlass \<and>
   alphaOf (data imgGlass) 0 = 0 \<and>
   alphaOf (data (removeLiquidGlassOutline imgGlass 1 200)) 0 = 0"
proof -
  have d: "(1::nat) < width imgSmooth" "(1::nat) < height imgSmooth"
    "0 < width imgGlass * height imgGlass" "alphaOf (data imgGlass) 0 = 0"
    by (simp_all add: imgSmooth_def imgGlass_def alphaOf_def)
  have p: "pixel (data imgSmooth) (pixelIndex imgSmooth 1 1) = (0, 0, 0, 128)"
    by (simp add: imgSmooth_def pixel_def pixelIndex_def)
  have a: "pixel (data (removeLightEdgeArtifacts imgSmooth)) (pixelIndex imgSmooth 1 1) = (0, 0, 0, 128)"
    using filters_frame_and_interior [OF wf_examples(1), of RemoveLightEdges]
      d neighboursNonzero_imgSmooth p by simp
  have b: "alphaOf (data (removeLiquidGlassOutline imgGlass 1 200)) 0 = 0"
    using filters_frame_and_interior [OF wf_examples(3), of "RemoveLiquidGlass 1 200"] d by simp
  show ?thesis
    using wf_examples d neighboursNonzero_imgSmooth a b by simp
qed

section \<open>Order and gating of the pipeline\<close>

lemma processPixels_steps:
  "processPixels img reference options = runSteps (refinementSteps options) (matte img reference options)"
proof -
  have m: "(case reference of
               Some bg \<Rightarrow> subtractBackground img bg (orDefault (threshold options) 30)
             | None \<Rightarrow>
                 (case targetBackgroundColor options of
                    Some c \<Rightarrow>
                      if c \<noteq> [] then removeByColor img (hexToRgb c) (orDefault (threshold options) 30)
                      else removeByColor img (detectBackgroundColor img) (orDefault (threshold options) 30)
                  | None \<Rightarrow> removeByColor img (detectBackgroundColor img) (orDefault (threshold options) 30)))
           = matte img reference options"
    by (simp add: matte_def split: option.splits)
  show ?thesis
    unfolding processPixels_def Let_def m
    by (simp add: runSteps_def refinementSteps_def)
qed

text \<open>
  Claim C7. The pixel pipeline of \<open>removeBackground\<close> is the matting stage (reference mode
  when a reference is supplied, otherwise colour key on the explicit target colour, otherwise
  colour key on the detected corner average) followed by the refinement steps in the fixed
  order edge smoothing, light-edge removal, erosion, aggressive cleanup, liquid-glass removal,
  each applied exactly when its option is active, each on the output of the steps before it.
  A call of \<open>removeBackground\<close> that resolves hands the encoder the result of this pipeline
  on the decoded image.
\<close>

theorem pipeline_order_and_gating:
  "processPixels img reference options =
     runSteps (refinementSteps options) (matte img reference options) \<and>
   (removeBackground browser imageFile referenceBackground options = Resolved blob \<longrightarrow>
      (\<exists>imageData. decode browser imageFile = Some imageData \<and>
         encodePng browser
           (runSteps (refinementSteps options)
              (matte imageData
                 (case referenceBackground of None \<Rightarrow> None | Some bgFile \<Rightarrow> decode browser bgFile)
                 options)) = Some blob))"
proof (intro conjI impI)
  show "processPixels img reference options =
     runSteps (refinementSteps options) (matte img reference options)"
    by (rule processPixels_steps)
next
  assume r: "removeBackground browser imageFile referenceBackground options = Resolved blob"
  then obtain imageData where d: "decode browser imageFile = Some imageData"
    by (auto simp: removeBackground_def split: option.splits)
  have "encodePng browser
           (processPixels imageData
              (case referenceBackground of None \<Rightarrow> None | Some bgFile \<Rightarrow> decode browser bgFile)
              options) = Some blob"
    using r d
    by (auto simp: removeBackground_def toBlobPromise_def split: option.splits if_splits)
  then show "\<exists>imageData. decode browser imageFile = Some imageData \<and>
         encodePng browser
           (runSteps (refinementSteps options)
              (matte imageData
                 (case referenceBackground of None \<Rightarrow> None | Some bgFile \<Rightarrow> decode browser bgFile)
                 options)) = Some blob"
    using d by (simp add: processPixels_steps)
qed

text \<open>The theorem at a call with a target colour and \<open>erodePixels = 1\<close>, smoothing off:
  the blob encodes the colour-keyed and once eroded image.\<close>

theorem pipeline_order_and_gating_witness:
  "removeBackground browser7 (File ''icon.png'') None options7 =
     Resolved (PngOf (erodeEdges (removeByColor img10 (hexToRgb ''#1a1a1a'') 30) 1))"
proof -
  have steps: "runSteps (refinementSteps options7) img = erodeEdges img 1" for img
    by (simp add: runSteps_def refinementSteps_def options7_def orDefault_def)
  have m: "matte img None options7 = removeByColor img (hexToRgb ''#1a1a1a'') 30" for img
    by (simp add: matte_def options7_def orDefault_def)
  obtain blob where b: "removeBackground browser7 (File ''icon.png'') None options7 = Resolved blob"
    by (simp add: removeBackground_def browser7_def toBlobPromise_def)
  from pipeline_order_and_gating [of img10 None options7 browser7 "File ''icon.png''" None blob] b
  have "blob = PngOf (erodeEdges (removeByColor img10 (hexToRgb ''#1a1a1a'') 30) 1)"
    by (simp add: steps m browser7_def)
  with b show ?thesis
    by simp
qed

section \<open>Failures in a batch\<close>

lemma removeByColor_dims:
  "width (removeByColor img c t) = width img" "height (removeByColor img c t) = height img"
  by (simp_all add: removeByColor_def)

lemma matte_dims:
  "width (matte img reference options) = width img \<and>
   height (matte img reference options) = height img"
  by (simp add: matte_def Let_def removeByColor_dims subtractBackground_width)

lemma runSteps_dims:
  "width (runSteps steps img) = width img \<and> height (runSteps steps img) = height img"
  unfolding runSteps_def
  by (rule fold_invariant [where I = "\<lambda>cur. width cur = width img \<and> height cur = height img"])
     (auto simp: applyFilter_dims)

lemma processPixels_dims:
  "width (processPixels img reference options) = width img \<and>
   height (processPixels img reference options) = height img"
  unfolding processPixels_steps using runSteps_dims matte_dims by simp

text \<open>A rejection of \<open>removeBackground\<close> is caught: the file gets the status \<open>'error'\<close> and a
  message, and the run returns.\<close>

lemma processFile_rejected:
  assumes "removeBackground browser (original file)
             (if useColorMode settings then None else referenceFile settings)
             ((sliders settings)\<lparr>targetBackgroundColor :=
                 (if useColorMode settings then Some (backgroundColor settings) else None)\<rparr>) =
           Rejected thrown"
    and "index < length files"
  shows "processFile browser settings file index files =
           Returned (files[index := (files ! index)
              \<lparr>status := Error,
               error := Some (case thrown of JsError message \<Rightarrow> message
                              | NonError \<Rightarrow> ''Unknown error'')\<rparr>])"
  unfolding processFile_def Let_def assms(1) using assms(2) by simp

text \<open>
  Claim C9 says that any failure thrown while one image is processed ends in the status
  \<open>'error'\<close> for that image and leaves the rest of the batch to be processed. The code
  does this for every rejection of \<open>removeBackground\<close> (the lemma above), but not for the
  failure of the encoder: \<open>throw new Error('Failed to create blob')\<close> sits in the callback of
  \<open>canvas.toBlob\<close>, so the promise never settles. In the batch below the encoder fails on
  the first file: the first file keeps the status \<open>'processing'\<close>, and the second file is
  never processed.
\<close>

theorem batch_encode_failure_hangs:
  "startBatchProcessing browser9 settings9 [fileA, fileB] =
     Hangs [fileA\<lparr>status := Processing\<rparr>, fileB]"
proof -
  have w: "width (processPixels imgSmooth reference options) = 3" for reference options
    using processPixels_dims [of imgSmooth reference options] by (simp add: imgSmooth_def)
  have "removeBackground browser9 (File ''a.png'') None options = Unsettled" for options
    by (simp add: removeBackground_def browser9_def toBlobPromise_def w)
  then have "processFile browser9 settings9 fileA 0 [fileA, fileB] =
      Hangs [fileA\<lparr>status := Processing\<rparr>, fileB]"
    by (simp add: processFile_def settings9_def fileA_def)
  then show ?thesis
    by (simp add: startBatchProcessing_def fileA_def upt_rec)
qed

section \<open>Facts about the Gaussian blur\<close>

lemma kernelOffsets_iff:
  "(ky, kx) \<in> set (kernelOffsets r) \<longleftrightarrow> - int r \<le> ky \<and> ky \<le> int r \<and> - int r \<le> kx \<and> kx \<le> int r"
  by (auto simp: kernelOffsets_def)

lemma length_upto_radius: "length [- int r..int r] = 2 * r + 1"
  by simp

lemma length_kernelOffsets: "length (kernelOffsets r) = (2 * r + 1) * (2 * r + 1)"
  unfolding kernelOffsets_def length_product length_upto_radius ..

lemma kernelOffsets_nth:
  assumes "off \<in> set (kernelOffsets r)"
  shows "kernelIdx r off < length (kernelOffsets r) \<and> kernelOffsets r ! kernelIdx r off = off"
proof -
  obtain ky kx where off: "off = (ky, kx)"
    by (cases off) auto
  have b: "- int r \<le> ky" "ky \<le> int r" "- int r \<le> kx" "kx \<le> int r"
    using assms off by (simp_all add: kernelOffsets_iff)
  define s where "s = 2 * r + 1"
  define a where "a = nat (ky + int r)"
  define c where "c = nat (kx + int r)"
  have a: "int a = ky + int r" and c: "int c = kx + int r"
    using b by (simp_all add: a_def c_def)
  have ab: "a < s" and cb: "c < s"
    unfolding s_def using b a c by linarith+
  have "int r * 2 + 1 = int s"
    by (simp add: s_def)
  then have "(ky + int r) * (int r * 2 + 1) + (kx + int r) = int (a * s + c)"
    using a c by simp
  then have idx: "kernelIdx r off = a * s + c"
    unfolding off kernelIdx_def prod.case by (simp only: nat_int)
  have len: "length [- int r..int r] = s"
    unfolding s_def by (rule length_upto_radius)
  have lt: "a * s + c < s * s"
    using ab cb by (simp only: row_major_bound)
  have dm: "(a * s + c) div s = a" "(a * s + c) mod s = c"
    using cb by simp_all
  have n: "[- int r..int r] ! a = ky" "[- int r..int r] ! c = kx"
    using ab cb a c unfolding s_def by simp_all
  have "List.product [- int r..int r] [- int r..int r] ! (a * s + c) =
          ([- int r..int r] ! ((a * s + c) div s), [- int r..int r] ! ((a * s + c) mod s))"
    using product_nth [of "a * s + c" "[- int r..int r]" "[- int r..int r]"] lt
    unfolding len by simp
  then have P: "kernelOffsets r ! (a * s + c) = off"
    unfolding dm n kernelOffsets_def off .
  have L: "length (kernelOffsets r) = s * s"
    unfolding s_def by (rule length_kernelOffsets)
  show ?thesis
    unfolding idx L using lt P by simp
qed

lemma kernelOffsets_centre: "(0, 0) \<in> set (kernelOffsets r)"
  by (simp add: kernelOffsets_iff)

lemma generateGaussianKernel_nth:
  assumes "off \<in> set (kernelOffsets r)"
  shows "generateGaussianKernel mathExp r ! kernelIdx r off = normalizedGaussian mathExp r off"
  using kernelOffsets_nth [OF assms]
  by (simp add: generateGaussianKernel_def Let_def normalizedGaussian_def)

lemma inBounds_neighbourIdx:
  assumes "inBounds w h y x off"
  shows "neighbourIdx w y x off < w * h"
proof -
  obtain dy dx where off: "off = (dy, dx)"
    by (cases off) auto
  have "nat (int x + dx) < w" "nat (int y + dy) < h"
    using assms unfolding off inBounds_def prod.case by linarith+
  then show ?thesis
    unfolding off neighbourIdx_def prod.case by (simp add: row_major_bound)
qed

lemma inBounds_centre: "x < w \<Longrightarrow> y < h \<Longrightarrow> inBounds w h y x (0, 0)"
  by (simp add: inBounds_def)

text \<open>
  Sums of doubles between 0 and 1, added one by one and rounded: the sum stays between 0 and
  \<open>2 ^ 53\<close>, and it is at least any double that one of the summands reaches.
\<close>

lemma fl_2_53_1: "fl (2 ^ 53 + 1) = 2 ^ 53"
  by (simp add: fl_compute)

lemma fl_2_m53: "fl (1 / 2 ^ 53) = 1 / 2 ^ 53"
  by (simp add: fl_compute)

lemma foldl_fadd_bounds:
  assumes "\<forall>x \<in> set xs. 0 \<le> f x \<and> f x \<le> 1" "0 \<le> s" "s \<le> 2 ^ 53"
  shows "0 \<le> foldl (\<lambda>s x. fadd s (f x)) s xs \<and> foldl (\<lambda>s x. fadd s (f x)) s xs \<le> 2 ^ 53"
  using assms
proof (induction xs arbitrary: s)
  case Nil
  then show ?case
    by simp
next
  case (Cons x xs)
  have fx: "0 \<le> f x" "f x \<le> 1"
    using Cons.prems(1) by simp_all
  have "fl 0 \<le> fl (s + f x)"
    using fx(1) Cons.prems(2) by (intro fl_mono) simp
  then have lo: "0 \<le> fadd s (f x)"
    by (simp add: fl_0 fadd_def)
  have "fl (s + f x) \<le> fl (2 ^ 53 + 1)"
    using fx(2) Cons.prems(3) by (intro fl_mono) simp
  then have hi: "fadd s (f x) \<le> 2 ^ 53"
    by (simp only: fl_2_53_1 fadd_def)
  show ?case
    using Cons.IH [OF _ lo hi] Cons.prems(1) by simp
qed

lemma foldl_fadd_lower:
  assumes "\<forall>x \<in> set xs. 0 \<le> f x" "c \<le> s" "fl c = c"
  shows "c \<le> foldl (\<lambda>s x. fadd s (f x)) s xs"
  using assms
proof (induction xs arbitrary: s)
  case Nil
  then show ?case
    by simp
next
  case (Cons x xs)
  have "fl c \<le> fl (s + f x)"
    using Cons.prems(1,2) by (intro fl_mono) simp
  then have "c \<le> fadd s (f x)"
    by (simp add: Cons.prems(3) fadd_def)
  then show ?case
    using Cons.IH [of "fadd s (f x)"] Cons.prems(1,3) by simp
qed

lemma foldl_fadd_member:
  assumes "x0 \<in> set xs" "c \<le> f x0" "fl c = c" "\<forall>x \<in> set xs. 0 \<le> f x" "0 \<le> s"
  shows "c \<le> foldl (\<lambda>s x. fadd s (f x)) s xs"
  using assms
proof (induction xs arbitrary: s)
  case Nil
  then show ?case
    by simp
next
  case (Cons x xs)
  show ?case
  proof (cases "x = x0")
    case True
    have "fl c \<le> fl (s + f x)"
      using Cons.prems(2,5) True by (intro fl_mono) simp
    then have "c \<le> fadd s (f x)"
      by (simp add: Cons.prems(3) fadd_def)
    then have "c \<le> foldl (\<lambda>s x. fadd s (f x)) (fadd s (f x)) xs"
      using Cons.prems(3,4) by (intro foldl_fadd_lower) simp_all
    then show ?thesis
      by simp
  next
    case False
    then have mem: "x0 \<in> set xs"
      using Cons.prems(1) by simp
    have "fl 0 \<le> fl (s + f x)"
      using Cons.prems(4,5) by (intro fl_mono) simp
    then have "0 \<le> fadd s (f x)"
      by (simp add: fl_0 fadd_def)
    then have "c \<le> foldl (\<lambda>s x. fadd s (f x)) (fadd s (f x)) xs"
      using Cons.IH [OF mem Cons.prems(2,3)] Cons.prems(4) by simp
    then show ?thesis
      by simp
  qed
qed

text \<open>
  The weights. \<open>Math.exp\<close> is applied to 0 at the centre and to numbers that are not
  positive elsewhere; when it is 1 at 0 and between 0 and 1 at the other arguments, the sum
  of the kernel is at least 1, every normalized weight is at least 0, the one of the centre
  is positive, and so is the sum of the weights around a pixel of the buffer.
\<close>

lemma fl_nonpos: "x \<le> 0 \<Longrightarrow> fl x \<le> 0"
  using fl_mono [of x 0] by (simp add: fl_0)

lemma gaussArg_nonpos:
  "fdiv (- fadd (fmul (real_of_int x) (real_of_int x)) (fmul (real_of_int y) (real_of_int y)))
        (fmul (fmul 2 (fdiv (real r) 2)) (fdiv (real r) 2)) \<le> 0"
proof -
  define sigma where "sigma = fdiv (real r) 2"
  define n where
    "n = fadd (fmul (real_of_int x) (real_of_int x)) (fmul (real_of_int y) (real_of_int y))"
  have sq: "0 \<le> fmul (real_of_int v) (real_of_int v)" for v
    unfolding fmul_def by (rule fl_nonneg) simp
  have n: "0 \<le> n"
    unfolding n_def fadd_def using sq [of x] sq [of y] by (intro fl_nonneg) simp
  have s: "0 \<le> sigma"
    unfolding sigma_def fdiv_def by (rule fl_nonneg) simp
  then have "0 \<le> 2 * sigma"
    by simp
  then have "0 \<le> fmul 2 sigma"
    unfolding fmul_def by (rule fl_nonneg)
  then have "0 \<le> fmul 2 sigma * sigma"
    using s by (rule mult_nonneg_nonneg)
  then have d: "0 \<le> fmul (fmul 2 sigma) sigma"
    unfolding fmul_def [of "fmul 2 sigma"] by (rule fl_nonneg)
  have "- n / fmul (fmul 2 sigma) sigma \<le> 0"
    using n d by (intro divide_nonpos_nonneg) simp_all
  then have "fdiv (- n) (fmul (fmul 2 sigma) sigma) \<le> 0"
    unfolding fdiv_def by (rule fl_nonpos)
  then show ?thesis
    unfolding n_def sigma_def .
qed

lemma gaussWeight_range:
  assumes "\<forall>z \<le> 0. 0 \<le> mathExp z \<and> mathExp z \<le> 1"
  shows "0 \<le> gaussWeight mathExp r off \<and> gaussWeight mathExp r off \<le> 1"
proof -
  obtain y x where off: "off = (y, x)"
    by (cases off) auto
  show ?thesis
    unfolding off gaussWeight_def Let_def prod.case
    using assms gaussArg_nonpos [of x y r] by blast
qed

lemma gaussWeight_centre:
  assumes "mathExp 0 = 1"
  shows "gaussWeight mathExp r (0, 0) = 1"
  using assms by (simp add: gaussWeight_def fmul_def fadd_def fdiv_def fl_0)

lemma kernelSum:
  "foldl fadd 0 (map (gaussWeight mathExp r) (kernelOffsets r)) =
     foldl (\<lambda>s off. fadd s (gaussWeight mathExp r off)) 0 (kernelOffsets r)"
  by (simp add: foldl_map)

lemma kernelSum_bounds:
  assumes "mathExp 0 = 1" "\<forall>z \<le> 0. 0 \<le> mathExp z \<and> mathExp z \<le> 1"
  shows "1 \<le> foldl fadd 0 (map (gaussWeight mathExp r) (kernelOffsets r))"
    and "foldl fadd 0 (map (gaussWeight mathExp r) (kernelOffsets r)) \<le> 2 ^ 53"
proof -
  have rg: "\<forall>off \<in> set (kernelOffsets r).
      0 \<le> gaussWeight mathExp r off \<and> gaussWeight mathExp r off \<le> 1"
    using gaussWeight_range [OF assms(2)] by blast
  have "1 \<le> foldl (\<lambda>s off. fadd s (gaussWeight mathExp r off)) 0 (kernelOffsets r)"
    by (rule foldl_fadd_member [where ?x0.0 = "(0, 0)"])
       (use rg in \<open>simp_all add: kernelOffsets_centre gaussWeight_centre [of mathExp, OF assms(1)] fl_1\<close>)
  then show "1 \<le> foldl fadd 0 (map (gaussWeight mathExp r) (kernelOffsets r))"
    by (simp only: kernelSum)
  have "foldl (\<lambda>s off. fadd s (gaussWeight mathExp r off)) 0 (kernelOffsets r) \<le> 2 ^ 53"
    using foldl_fadd_bounds [OF rg, of 0] by simp
  then show "foldl fadd 0 (map (gaussWeight mathExp r) (kernelOffsets r)) \<le> 2 ^ 53"
    by (simp only: kernelSum)
qed

lemma normalizedGaussian_nonneg:
  assumes "mathExp 0 = 1" "\<forall>z \<le> 0. 0 \<le> mathExp z \<and> mathExp z \<le> 1"
  shows "0 \<le> normalizedGaussian mathExp r off"
proof -
  have "0 \<le> gaussWeight mathExp r off"
    using gaussWeight_range [OF assms(2)] by blast
  moreover have "0 \<le> foldl fadd 0 (map (gaussWeight mathExp r) (kernelOffsets r))"
    using kernelSum_bounds(1) [OF assms, of r] by simp
  ultimately show ?thesis
    unfolding normalizedGaussian_def fdiv_def by (intro fl_nonneg divide_nonneg_nonneg)
qed

lemma normalizedGaussian_centre:
  assumes "mathExp 0 = 1" "\<forall>z \<le> 0. 0 \<le> mathExp z \<and> mathExp z \<le> 1"
  shows "1 / 2 ^ 53 \<le> normalizedGaussian mathExp r (0, 0)"
proof -
  define T where "T = foldl fadd 0 (map (gaussWeight mathExp r) (kernelOffsets r))"
  have T: "1 \<le> T" "T \<le> 2 ^ 53"
    unfolding T_def by (rule kernelSum_bounds [OF assms])+
  have "1 / 2 ^ 53 \<le> 1 / T"
    using T by (intro divide_left_mono) simp_all
  then have "fl (1 / 2 ^ 53) \<le> fl (1 / T)"
    by (rule fl_mono)
  then show ?thesis
    unfolding normalizedGaussian_def gaussWeight_centre [of mathExp, OF assms(1)] T_def [symmetric] fdiv_def
      fl_2_m53 .
qed

lemma weightSum_pos:
  assumes "mathExp 0 = 1" "\<forall>z \<le> 0. 0 \<le> mathExp z \<and> mathExp z \<le> 1"
    and "x < width img" "y < height img"
  shows "0 < weightSumOf mathExp r img x y"
proof -
  have mem: "(0, 0) \<in> set (filter (inBounds (width img) (height img) y x) (kernelOffsets r))"
    using assms(3,4) by (simp add: inBounds_centre kernelOffsets_centre)
  have c: "1 / 2 ^ 53 \<le> normalizedGaussian mathExp r (0, 0)"
    using assms(1,2) by (rule normalizedGaussian_centre)
  have nn: "\<forall>off \<in> set (filter (inBounds (width img) (height img) y x) (kernelOffsets r)).
      0 \<le> normalizedGaussian mathExp r off"
    using normalizedGaussian_nonneg [OF assms(1,2)] by blast
  have "1 / 2 ^ 53 \<le> weightSumOf mathExp r img x y"
    unfolding weightSumOf_def by (rule foldl_fadd_member [OF mem c fl_2_m53 nn]) simp
  moreover have "(0 :: real) < 1 / 2 ^ 53"
    by simp
  ultimately show ?thesis
    by linarith
qed

text \<open>One pass of the blur writes the alpha slots only, each from the alpha channel it
  starts with.\<close>

lemma gaussianPixel_step:
  "gaussianPixel kern r w h tempAlpha yx d =
     d[(case yx of (y, x) \<Rightarrow> (y * w + x) * 4 + 3) :=
         gaussianValue kern r w h tempAlpha yx (d ! (case yx of (y, x) \<Rightarrow> (y * w + x) * 4 + 3))]"
  by (cases yx) (simp add: gaussianPixel_def gaussianValue_def Let_def list_update_id)

lemma distinct_alpha_slots:
  "distinct (map (\<lambda>(y, x). (y * w + x) * 4 + 3) (allCoords w h))"
proof -
  have "distinct (map (\<lambda>k. k * 4 + 3) (map (\<lambda>(y, x). y * w + x) (allCoords w h)))"
    using distinct_allCoords [of w h] by (simp add: distinct_map inj_on_def)
  moreover have "(\<lambda>k. k * 4 + 3) \<circ> (\<lambda>(y, x). y * w + x) = (\<lambda>(y, x). (y * w + x) * 4 + 3)"
    by (auto simp: fun_eq_iff)
  ultimately show ?thesis
    by (simp only: map_map)
qed

lemma data_gaussianPass:
  "data (gaussianPass kern r img) =
     fold (gaussianPixel kern r (width img) (height img)
             (map (\<lambda>i. data img ! (i * 4 + 3)) [0..<width img * height img]))
       (allCoords (width img) (height img)) (data img)"
  by (simp add: gaussianPass_def Let_def)

lemma gaussianPass_dims:
  "width (gaussianPass kern r img) = width img" "height (gaussianPass kern r img) = height img"
  by (simp_all add: gaussianPass_def Let_def)

lemma gaussianPass_length: "length (data (gaussianPass kern r img)) = length (data img)"
  unfolding data_gaussianPass
  by (rule fold_slot_length [where g = "gaussianValue kern r (width img) (height img)
             (map (\<lambda>i. data img ! (i * 4 + 3)) [0..<width img * height img])"])
     (rule gaussianPixel_step)

lemma gaussianPass_wf: "wf_ImageData img \<Longrightarrow> wf_ImageData (gaussianPass kern r img)"
  by (simp add: wf_ImageData_def gaussianPass_dims gaussianPass_length)

lemma gaussianPass_other:
  assumes "j mod 4 \<noteq> 3"
  shows "data (gaussianPass kern r img) ! j = data img ! j"
proof -
  have "(y * width img + x) * 4 + 3 \<noteq> j" for y x
    using assms by presburger
  then have "\<forall>yx \<in> set (allCoords (width img) (height img)).
               (case yx of (y, x) \<Rightarrow> (y * width img + x) * 4 + 3) \<noteq> j"
    by auto
  then show ?thesis
    unfolding data_gaussianPass
    by (rule fold_slot_other [where g = "gaussianValue kern r (width img) (height img)
             (map (\<lambda>i. data img ! (i * 4 + 3)) [0..<width img * height img])", OF gaussianPixel_step])
qed

lemma alphaOf_alt: "alphaOf d k = d ! (k * 4 + 3)"
  by (simp add: alphaOf_def mult.commute)

lemma gaussianPass_alpha:
  assumes "wf_ImageData img" "x < width img" "y < height img"
  shows "alphaOf (data (gaussianPass kern r img)) (y * width img + x) =
           gaussianValue kern r (width img) (height img)
             (map (alphaOf (data img)) [0..<width img * height img]) (y, x)
             (alphaOf (data img) (y * width img + x))"
proof -
  let ?w = "width img" and ?h = "height img"
  let ?temp = "map (\<lambda>i. data img ! (i * 4 + 3)) [0..<?w * ?h]"
  have t: "map (alphaOf (data img)) [0..<?w * ?h] = ?temp"
    by (simp add: alphaOf_alt)
  have k: "y * ?w + x < ?w * ?h"
    using assms(2,3) by (simp add: row_major_bound)
  have "4 * (y * ?w + x) + 3 < length (data img)"
    using k wf_pixel_in_range [OF assms(1), of "y * ?w + x"] by simp
  then have in_img: "(case (y, x) of (y, x) \<Rightarrow> (y * ?w + x) * 4 + 3) < length (data img)"
    by (simp add: mult.commute)
  have mem: "(y, x) \<in> set (allCoords ?w ?h)"
    using assms(2,3) by (simp add: allCoords_iff)
  have "fold (gaussianPixel kern r ?w ?h ?temp) (allCoords ?w ?h) (data img) !
          (case (y, x) of (y, x) \<Rightarrow> (y * ?w + x) * 4 + 3) =
        gaussianValue kern r ?w ?h ?temp (y, x)
          (data img ! (case (y, x) of (y, x) \<Rightarrow> (y * ?w + x) * 4 + 3))"
    by (rule fold_slot_self [where g = "gaussianValue kern r ?w ?h ?temp",
          OF gaussianPixel_step distinct_alpha_slots mem in_img])
  then show ?thesis
    unfolding data_gaussianPass [symmetric] t alphaOf_alt prod.case .
qed

text \<open>The two sums of the source, over the entries of the kernel array, are the sums of the
  specification over the normalized Gaussian.\<close>

lemma gaussian_sums:
  "fdiv (foldl (\<lambda>s off. fadd s (fmul (num (map (alphaOf (data img)) [0..<width img * height img] !
                                           neighbourIdx (width img) y x off))
                                     (generateGaussianKernel mathExp r ! kernelIdx r off))) 0
           (filter (inBounds (width img) (height img) y x) (kernelOffsets r)))
        (foldl (\<lambda>s off. fadd s (generateGaussianKernel mathExp r ! kernelIdx r off)) 0
           (filter (inBounds (width img) (height img) y x) (kernelOffsets r))) =
   blurredAlpha mathExp r img x y"
proof -
  define inside where "inside = filter (inBounds (width img) (height img) y x) (kernelOffsets r)"
  define temp where "temp = map (alphaOf (data img)) [0..<width img * height img]"
  have a: "fadd s (fmul (num (temp ! neighbourIdx (width img) y x off))
                     (generateGaussianKernel mathExp r ! kernelIdx r off)) =
           fadd s (fmul (num (alphaOf (data img) (neighbourIdx (width img) y x off)))
                     (normalizedGaussian mathExp r off))"
    if "off \<in> set inside" for off s
  proof -
    have "neighbourIdx (width img) y x off < width img * height img"
      using that by (intro inBounds_neighbourIdx) (simp add: inside_def)
    moreover have "off \<in> set (kernelOffsets r)"
      using that by (simp add: inside_def)
    ultimately show ?thesis
      by (simp add: temp_def generateGaussianKernel_nth)
  qed
  have b: "fadd s (generateGaussianKernel mathExp r ! kernelIdx r off) =
           fadd s (normalizedGaussian mathExp r off)"
    if "off \<in> set inside" for off s
    using that by (simp add: generateGaussianKernel_nth inside_def)
  have e1: "foldl (\<lambda>s off. fadd s (fmul (num (temp ! neighbourIdx (width img) y x off))
                (generateGaussianKernel mathExp r ! kernelIdx r off))) 0 inside =
        foldl (\<lambda>s off. fadd s (fmul (num (alphaOf (data img) (neighbourIdx (width img) y x off)))
                (normalizedGaussian mathExp r off))) 0 inside"
    by (rule foldl_cong [OF refl refl]) (rule a)
  have e2: "foldl (\<lambda>s off. fadd s (generateGaussianKernel mathExp r ! kernelIdx r off)) 0 inside =
        foldl (\<lambda>s off. fadd s (normalizedGaussian mathExp r off)) 0 inside"
    by (rule foldl_cong [OF refl refl]) (rule b)
  show ?thesis
    unfolding blurredAlpha_def weightSumOf_def inside_def [symmetric] temp_def [symmetric] e1 e2 ..
qed

lemma gaussianPass_pixel:
  assumes "wf_ImageData img" "1 \<le> r" "x < width img" "y < height img"
  shows "(10 < num (alphaOf (data img) (pixelIndex img x y)) \<and>
          num (alphaOf (data img) (pixelIndex img x y)) < 245 \<longrightarrow>
            alphaOf (data (gaussianPass (generateGaussianKernel mathExp r) r img))
              (pixelIndex img x y) =
              toUint8Clamp (Math_round (blurredAlpha mathExp r img x y))) \<and>
         (\<not> (10 < num (alphaOf (data img) (pixelIndex img x y)) \<and>
             num (alphaOf (data img) (pixelIndex img x y)) < 245) \<longrightarrow>
            alphaOf (data (gaussianPass (generateGaussianKernel mathExp r) r img))
              (pixelIndex img x y) =
              alphaOf (data img) (pixelIndex img x y))"
proof -
  let ?w = "width img" and ?h = "height img"
  let ?k = "y * ?w + x"
  let ?temp = "map (alphaOf (data img)) [0..<?w * ?h]"
  have k: "?k < ?w * ?h"
    using assms(3,4) by (simp add: row_major_bound)
  have tk: "?temp ! ?k = alphaOf (data img) ?k"
    using k by simp
  have r0: "r \<noteq> 0"
    using assms(2) by simp
  have v: "alphaOf (data (gaussianPass (generateGaussianKernel mathExp r) r img)) ?k =
      (if num (alphaOf (data img) ?k) > 10 \<and> num (alphaOf (data img) ?k) < 245
       then toUint8Clamp (Math_round (blurredAlpha mathExp r img x y))
       else alphaOf (data img) ?k)"
    unfolding gaussianPass_alpha [OF assms(1,3,4)] gaussianValue_def prod.case tk
      gaussian_sums
    using r0 by simp
  show ?thesis
    unfolding pixelIndex_def v by simp
qed

section \<open>The iterations of the Gaussian blur\<close>

lemma gaussianMethod_0: "gaussianMethod mathExp img r 0 = img"
  by (simp add: gaussianMethod_def)

lemma gaussianMethod_Suc:
  "gaussianMethod mathExp img r (Suc p) =
     gaussianPass (generateGaussianKernel mathExp r) r (gaussianMethod mathExp img r p)"
  by (simp add: gaussianMethod_def Let_def)

lemma gaussianMethod_invariant:
  assumes "wf_ImageData img"
  shows "wf_ImageData (gaussianMethod mathExp img r p) \<and>
         width (gaussianMethod mathExp img r p) = width img \<and>
         height (gaussianMethod mathExp img r p) = height img \<and>
         (\<forall>j. j mod 4 \<noteq> 3 \<longrightarrow> data (gaussianMethod mathExp img r p) ! j = data img ! j)"
proof (induction p)
  case 0
  then show ?case
    using assms by (simp add: gaussianMethod_0)
next
  case (Suc p)
  then show ?case
    unfolding gaussianMethod_Suc
    by (simp add: gaussianPass_wf gaussianPass_dims gaussianPass_other)
qed

text \<open>The blur of radius 1 with the table of exponentials, at the first pixel of the
  2\<times>1 image: the kernel, its sum, the two weights in bounds and the weighted average,
  about 101.19.\<close>

lemma kernelOffsets_1:
  "kernelOffsets 1 = [(-1, -1), (-1, 0), (-1, 1), (0, -1), (0, 0), (0, 1), (1, -1), (1, 0), (1, 1)]"
  by (simp add: kernelOffsets_def upto.simps)

lemma gaussWeight_table:
  "gaussWeight expTable 1 (0, 0) = 1"
  "gaussWeight expTable 1 (0, 1) = 1218991862308979 / 9007199254740992"
  "gaussWeight expTable 1 (0, - 1) = 1218991862308979 / 9007199254740992"
  "gaussWeight expTable 1 (1, 0) = 1218991862308979 / 9007199254740992"
  "gaussWeight expTable 1 (- 1, 0) = 1218991862308979 / 9007199254740992"
  "gaussWeight expTable 1 (1, 1) = 1319780871589693 / 72057594037927936"
  "gaussWeight expTable 1 (1, - 1) = 1319780871589693 / 72057594037927936"
  "gaussWeight expTable 1 (- 1, 1) = 1319780871589693 / 72057594037927936"
  "gaussWeight expTable 1 (- 1, - 1) = 1319780871589693 / 72057594037927936"
  unfolding gaussWeight_def prod.case
  by (simp_all add: expTable_def fl_compute)

lemma kernelSum_table:
  "foldl fadd 0 (map (gaussWeight expTable 1) (kernelOffsets 1)) =
     3635764284942939 / 2251799813685248"
  unfolding kernelOffsets_1 list.map gaussWeight_table foldl.simps
  by (simp add: fl_compute)

lemma normalizedGaussian_table:
  "normalizedGaussian expTable 1 (0, 0) = 5578582112060653 / 9007199254740992"
  "normalizedGaussian expTable 1 (0, 1) = 6039831921555437 / 72057594037927936"
  unfolding normalizedGaussian_def kernelSum_table gaussWeight_table
  by (simp_all add: fl_compute)

lemma inside_img8:
  "filter (inBounds (width img8) (height img8) 0 0) (kernelOffsets 1) = [(0, 0), (0, 1)]"
  unfolding kernelOffsets_1 by (simp add: inBounds_def img8_def)

lemma blurredAlpha_img8: "Math_round (blurredAlpha expTable 1 img8 0 0) = 101"
proof -
  have a: "num (alphaOf (data img8) (neighbourIdx (width img8) 0 0 (0, 0))) = 100"
    "num (alphaOf (data img8) (neighbourIdx (width img8) 0 0 (0, 1))) = 110"
    by (simp_all add: neighbourIdx_def img8_def alphaOf_def num_def)
  have b: "blurredAlpha expTable 1 img8 0 0 = 1780189004254111 / 17592186044416"
    unfolding blurredAlpha_def weightSumOf_def inside_img8 foldl.simps a normalizedGaussian_table
    by (simp add: fl_compute)
  show ?thesis
    unfolding b by (simp add: Math_round_def)
qed

text \<open>
  Claim C8. \<open>gaussianMethod mathExp img radius p\<close> is the buffer after \<open>p\<close> iterations of the
  loop over the passes: it is the image for \<open>p = 0\<close>, and the call with \<open>passes\<close> returns the
  buffer after \<open>passes\<close> iterations. For a radius of at least 1, and \<open>Math.exp\<close> being 1 at 0
  and between 0 and 1 at the arguments that are not positive, every iteration \<open>p < passes\<close>
  changes no dimension and no R, G or B; a pixel whose alpha at the start of the iteration is
  strictly between 10 and 245 gets as alpha the average of the alphas at the start of the
  iteration, weighted by the normalized Gaussian with \<open>sigma = radius / 2\<close> over the offsets
  that stay inside the buffer and renormalized over them (the sum of these weights is
  positive), computed in double precision in the order of the source, rounded by
  \<open>Math.round\<close> and stored in the byte array; every other pixel keeps its alpha.
\<close>

theorem gaussian_blur_iteration:
  assumes "wf_ImageData img" "1 \<le> radius"
    and "mathExp 0 = 1" "\<forall>z \<le> 0. 0 \<le> mathExp z \<and> mathExp z \<le> 1"
  shows "gaussianMethod mathExp img radius 0 = img \<and>
         gaussianMethod mathExp img radius passes =
           (gaussianPass (generateGaussianKernel mathExp radius) radius ^^ passes) img \<and>
         (\<forall>p < passes.
            let cur = gaussianMethod mathExp img radius p;
                nxt = gaussianMethod mathExp img radius (Suc p)
            in nxt = gaussianPass (generateGaussianKernel mathExp radius) radius cur \<and>
               width nxt = width img \<and> height nxt = height img \<and>
               length (data nxt) = length (data img) \<and>
               (\<forall>j < length (data img). j mod 4 \<noteq> 3 \<longrightarrow> data nxt ! j = data cur ! j) \<and>
               (\<forall>x < width img. \<forall>y < height img.
                  0 < weightSumOf mathExp radius cur x y \<and>
                  (10 < num (alphaOf (data cur) (pixelIndex img x y)) \<and>
                   num (alphaOf (data cur) (pixelIndex img x y)) < 245 \<longrightarrow>
                     alphaOf (data nxt) (pixelIndex img x y) =
                       toUint8Clamp (Math_round (blurredAlpha mathExp radius cur x y))) \<and>
                  (\<not> (10 < num (alphaOf (data cur) (pixelIndex img x y)) \<and>
                      num (alphaOf (data cur) (pixelIndex img x y)) < 245) \<longrightarrow>
                     alphaOf (data nxt) (pixelIndex img x y) =
                       alphaOf (data cur) (pixelIndex img x y))))"
proof -
  have iter: "gaussianMethod mathExp img radius passes =
      (gaussianPass (generateGaussianKernel mathExp radius) radius ^^ passes) img"
    by (simp add: gaussianMethod_def Let_def)
  have step: "let cur = gaussianMethod mathExp img radius p;
                nxt = gaussianMethod mathExp img radius (Suc p)
            in nxt = gaussianPass (generateGaussianKernel mathExp radius) radius cur \<and>
               width nxt = width img \<and> height nxt = height img \<and>
               length (data nxt) = length (data img) \<and>
               (\<forall>j < length (data img). j mod 4 \<noteq> 3 \<longrightarrow> data nxt ! j = data cur ! j) \<and>
               (\<forall>x < width img. \<forall>y < height img.
                  0 < weightSumOf mathExp radius cur x y \<and>
                  (10 < num (alphaOf (data cur) (pixelIndex img x y)) \<and>
                   num (alphaOf (data cur) (pixelIndex img x y)) < 245 \<longrightarrow>
                     alphaOf (data nxt) (pixelIndex img x y) =
                       toUint8Clamp (Math_round (blurredAlpha mathExp radius cur x y))) \<and>
                  (\<not> (10 < num (alphaOf (data cur) (pixelIndex img x y)) \<and>
                      num (alphaOf (data cur) (pixelIndex img x y)) < 245) \<longrightarrow>
                     alphaOf (data nxt) (pixelIndex img x y) =
                       alphaOf (data cur) (pixelIndex img x y)))" for p
  proof -
    define cur where "cur = gaussianMethod mathExp img radius p"
    define nxt where "nxt = gaussianMethod mathExp img radius (Suc p)"
    have st: "nxt = gaussianPass (generateGaussianKernel mathExp radius) radius cur"
      unfolding nxt_def cur_def by (rule gaussianMethod_Suc)
    have c: "wf_ImageData cur" "width cur = width img" "height cur = height img"
      using gaussianMethod_invariant [OF assms(1), of mathExp radius p] by (simp_all add: cur_def)
    have n: "wf_ImageData nxt" "width nxt = width img" "height nxt = height img"
      using gaussianMethod_invariant [OF assms(1), of mathExp radius "Suc p"]
      by (simp_all add: nxt_def)
    have len: "length (data nxt) = length (data img)"
      using n(1-3) assms(1) by (simp add: wf_ImageData_def)
    have rgb: "\<forall>j < length (data img). j mod 4 \<noteq> 3 \<longrightarrow> data nxt ! j = data cur ! j"
      unfolding st by (simp add: gaussianPass_other)
    have pix: "0 < weightSumOf mathExp radius cur x y \<and>
               (10 < num (alphaOf (data cur) (pixelIndex img x y)) \<and>
                 num (alphaOf (data cur) (pixelIndex img x y)) < 245 \<longrightarrow>
                   alphaOf (data nxt) (pixelIndex img x y) =
                     toUint8Clamp (Math_round (blurredAlpha mathExp radius cur x y))) \<and>
                (\<not> (10 < num (alphaOf (data cur) (pixelIndex img x y)) \<and>
                    num (alphaOf (data cur) (pixelIndex img x y)) < 245) \<longrightarrow>
                   alphaOf (data nxt) (pixelIndex img x y) =
                     alphaOf (data cur) (pixelIndex img x y))"
      if "x < width img" "y < height img" for x y
    proof -
      have xy: "x < width cur" "y < height cur"
        using that c(2,3) by simp_all
      have i: "pixelIndex img x y = pixelIndex cur x y"
        by (simp add: pixelIndex_def c(2))
      have w: "0 < weightSumOf mathExp radius cur x y"
        using assms(3,4) xy by (rule weightSum_pos)
      show ?thesis
        unfolding st i using gaussianPass_pixel [OF c(1) assms(2) xy, of mathExp] w by simp
    qed
    have "nxt = gaussianPass (generateGaussianKernel mathExp radius) radius cur \<and>
               width nxt = width img \<and> height nxt = height img \<and>
               length (data nxt) = length (data img) \<and>
               (\<forall>j < length (data img). j mod 4 \<noteq> 3 \<longrightarrow> data nxt ! j = data cur ! j) \<and>
               (\<forall>x < width img. \<forall>y < height img.
                  0 < weightSumOf mathExp radius cur x y \<and>
                  (10 < num (alphaOf (data cur) (pixelIndex img x y)) \<and>
                   num (alphaOf (data cur) (pixelIndex img x y)) < 245 \<longrightarrow>
                     alphaOf (data nxt) (pixelIndex img x y) =
                       toUint8Clamp (Math_round (blurredAlpha mathExp radius cur x y))) \<and>
                  (\<not> (10 < num (alphaOf (data cur) (pixelIndex img x y)) \<and>
                      num (alphaOf (data cur) (pixelIndex img x y)) < 245) \<longrightarrow>
                     alphaOf (data nxt) (pixelIndex img x y) =
                       alphaOf (data cur) (pixelIndex img x y)))"
      using st n(2,3) len rgb pix by blast
    then show ?thesis
      unfolding Let_def cur_def nxt_def .
  qed
  show ?thesis
    using gaussianMethod_0 [of mathExp img radius] iter step by blast
qed

text \<open>The theorem with one pass of radius 1 on the 2\<times>1 image with the alphas 100 and 110,
  with the table of exponentials: the weighted average at the first pixel is about 101.19,
  and the alpha 100 becomes 101.\<close>

theorem gaussian_blur_iteration_witness:
  "wf_ImageData img8 \<and> (1::nat) \<le> 1 \<and> expTable 0 = 1 \<and>
   (\<forall>z. 0 \<le> expTable z \<and> expTable z \<le> 1) \<and>
   (0::nat) < 1 \<and> 0 < width img8 \<and> 0 < height img8 \<and>
   gaussianMethod expTable img8 1 0 = img8 \<and>
   num (alphaOf (data img8) (pixelIndex img8 0 0)) = 100 \<and>
   0 < weightSumOf expTable 1 img8 0 0 \<and>
   alphaOf (data (gaussianMethod expTable img8 1 1)) (pixelIndex img8 0 0) = 101"
proof -
  have wf: "wf_ImageData img8"
    by (simp add: wf_ImageData_def img8_def)
  have h: "(1::nat) \<le> 1" "expTable 0 = 1" "\<forall>z \<le> 0. 0 \<le> expTable z \<and> expTable z \<le> 1"
    by (simp_all add: expTable_def)
  have d: "0 < width img8" "0 < height img8"
    by (simp_all add: img8_def)
  have a: "num (alphaOf (data img8) (pixelIndex img8 0 0)) = 100"
    by (simp add: img8_def alphaOf_def pixelIndex_def num_def)
  have p0: "(0::nat) < 1"
    by simp
  note t = gaussian_blur_iteration [OF wf h, of 1]
  have z: "gaussianMethod expTable img8 1 0 = img8"
    using t by (rule conjunct1)
  note u = t [THEN conjunct2, THEN conjunct2, THEN spec [where x = "0::nat"], THEN mp, OF p0,
      unfolded Let_def z]
  have s: "0 < weightSumOf expTable 1 img8 0 0 \<and>
      (10 < num (alphaOf (data img8) (pixelIndex img8 0 0)) \<and>
       num (alphaOf (data img8) (pixelIndex img8 0 0)) < 245 \<longrightarrow>
         alphaOf (data (gaussianMethod expTable img8 1 (Suc 0))) (pixelIndex img8 0 0) =
           toUint8Clamp (Math_round (blurredAlpha expTable 1 img8 0 0)))"
    using u d by blast
  then have "alphaOf (data (gaussianMethod expTable img8 1 (Suc 0))) (pixelIndex img8 0 0) =
      toUint8Clamp 101"
    unfolding a blurredAlpha_img8 by simp
  then have "alphaOf (data (gaussianMethod expTable img8 1 1)) (pixelIndex img8 0 0) = 101"
    by (simp add: toUint8Clamp_def)
  moreover have "\<forall>z. 0 \<le> expTable z \<and> expTable z \<le> 1"
    by (simp add: expTable_def)
  ultimately show ?thesis
    using wf h(1,2) d z a s by simp
qed

end
